theory Spec2Isabelle
  imports Main
begin

section \<open>Values, errors and the observable trace\<close>

text \<open>
  The module \<open>src/services/sql.js\<close> is a data-access layer over one SQLite connection.
  Its collaborators (the storage engine, the logger, the clock, the notification channel
  and the context-local storage) are not part of the module; whatever the module asks of
  them is recorded, in order, in a trace of events, and their answers are taken from an
  environment whose functions may depend on everything that happened before.

  JavaScript values that flow through the module: field values of records, bound
  parameters and column values of rows. Numbers are integers here (SQLite REAL values
  are left out).
\<close>

datatype jsval = Undefined | Null | Bool bool | Num int | Str string

text \<open>An object with its own enumerable properties in enumeration order.\<close>

type_synonym jsobj = "(string \<times> jsval) list"

text \<open>
  The bound parameters that the callers of the module pass: an array, or an object of
  named parameters. A statement method is called with such a value or, by the
  transaction verbs, with no argument at all (\<open>run()\<close>): that is \<open>None\<close> below.
\<close>

datatype params = PArr "jsval list" | PObj jsobj

text \<open>
  What \<open>stmt(sql)\<close> evaluates to: \<open>statementCache[sql]\<close>. That is a handle returned by
  \<open>dbConnection.prepare\<close> (numbered by the position of its compilation in the trace),
  or, since \<open>statementCache\<close> is a plain object literal, a property inherited from
  \<open>Object.prototype\<close>.
\<close>

datatype stmtval = Handle nat string | Inherited string

text \<open>
  Errors. \<open>WrappedError e\<close> is the \<open>thisError\<close> object of \<open>wrap\<close>: a new \<open>Error\<close>
  whose message has been set to \<open>e.stack\<close>. Stack traces themselves are not modelled.
\<close>

datatype jsError =
    Error string
  | TypeError string
  | EngineError string
  | WrappedError jsError

datatype logmsg =
    Msg string
  | QueryError jsError
  | SlowRecursive int
  | SlowQuery int string

datatype event =
    EPrepare string
  | ERun stmtval "params option"
  | EGet stmtval "params option"
  | EAll stmtval "params option"
  | EConnRun string params
  | ELogError logmsg
  | ELogInfo logmsg
  | EPing

record runinfo =
  changes :: int
  lastInsertRowid :: int

text \<open>
  The collaborators. Each answer may depend on the whole history, so the engine may be
  stateful; \<open>None\<close> of \<open>eng_prepare\<close> and of \<open>ws_sendPing\<close> means that the call
  returned normally.
\<close>

record env =
  eng_prepare :: "event list \<Rightarrow> string \<Rightarrow> jsError option"
  eng_run :: "event list \<Rightarrow> stmtval \<Rightarrow> params option \<Rightarrow> jsError + runinfo"
  eng_get :: "event list \<Rightarrow> stmtval \<Rightarrow> params option \<Rightarrow> jsError + jsobj option"
  eng_all :: "event list \<Rightarrow> stmtval \<Rightarrow> params option \<Rightarrow> jsError + jsobj list"
  eng_conn_run :: "event list \<Rightarrow> string \<Rightarrow> params \<Rightarrow> jsError option"
  date_now :: "event list \<Rightarrow> int"
  ws_sendPing :: "event list \<Rightarrow> jsError option"

text \<open>
  The module's variables: \<open>dbConnection\<close> (\<open>None\<close> while it is undefined), the own
  properties of \<open>statementCache\<close>, the two flags kept in the context-local storage, and
  the trace.
\<close>

record state =
  dbConnection :: "nat option"
  statementCache :: "string \<rightharpoonup> stmtval"
  isTransactional :: bool
  isInTransaction :: bool
  trace :: "event list"

type_synonym 'a res = "(jsError + 'a) \<times> state"

type_synonym 'a action = "state \<Rightarrow> 'a res"

definition emit :: "event \<Rightarrow> state \<Rightarrow> state" where
  "emit ev s = s\<lparr>trace := trace s @ [ev]\<rparr>"

text \<open>Sequencing of two calls: an exception of the first skips the second.\<close>

definition and_then :: "'a action \<Rightarrow> ('a \<Rightarrow> 'b action) \<Rightarrow> 'b action" where
  "and_then m f s = (case m s of (Inl e, s1) \<Rightarrow> (Inl e, s1) | (Inr v, s1) \<Rightarrow> f v s1)"

section \<open>Collaborating modules\<close>

text \<open>
  Modelled from the spec: the module \<open>./cls\<close> is not among the sources. The spec
  describes it as two boolean flags held in a call-scoped context, \<open>isTransactional\<close>
  and \<open>isInTransaction\<close>, visible to every nested call of one call chain;
  \<open>cls.get\<close>/\<open>cls.set\<close> and \<open>cls.namespace.get\<close>/\<open>cls.namespace.set\<close> read and write
  them.
\<close>

datatype clskey = KIsTransactional | KIsInTransaction

fun cls_get :: "clskey \<Rightarrow> state \<Rightarrow> bool" where
  "cls_get KIsTransactional s = isTransactional s"
| "cls_get KIsInTransaction s = isInTransaction s"

fun cls_set :: "clskey \<Rightarrow> bool \<Rightarrow> state \<Rightarrow> state" where
  "cls_set KIsTransactional b s = s\<lparr>isTransactional := b\<rparr>"
| "cls_set KIsInTransaction b s = s\<lparr>isInTransaction := b\<rparr>"

text \<open>
  Modelled from the spec: the module \<open>./log\<close> is not among the sources. The spec gives
  the logger as a sink with \<open>info(msg)\<close> and \<open>error(msg)\<close>; a call appends one entry.
\<close>

definition log_error :: "logmsg \<Rightarrow> state \<Rightarrow> state" where
  "log_error m s = emit (ELogError m) s"

definition log_info :: "logmsg \<Rightarrow> state \<Rightarrow> state" where
  "log_info m s = emit (ELogInfo m) s"

text \<open>
  Modelled from the spec: the module \<open>./ws.js\<close> is not among the sources. The spec
  gives the notification sink as \<open>notifyAllClients()\<close>, best effort; the call is
  recorded and may raise.
\<close>

definition sendPingToAllClients :: "env \<Rightarrow> unit action" where
  "sendPingToAllClients env s =
     (case ws_sendPing env (trace s) of
        Some e \<Rightarrow> (Inl e, emit EPing s)
      | None \<Rightarrow> (Inr (), emit EPing s))"

section \<open>Strings\<close>

fun join :: "string \<Rightarrow> string list \<Rightarrow> string" where
  "join sep [] = []"
| "join sep [x] = x"
| "join sep (x # y # ys) = x @ sep @ join sep (y # ys)"

fun show_nat :: "nat \<Rightarrow> string" where
  "show_nat n =
     (if n < 10 then [''0123456789'' ! n]
      else show_nat (n div 10) @ [''0123456789'' ! (n mod 10)])"

declare show_nat.simps [simp del]

text \<open>\<open>s.includes(t)\<close>.\<close>

fun starts_with :: "string \<Rightarrow> string \<Rightarrow> bool" where
  "starts_with s [] = True"
| "starts_with [] (c # t) = False"
| "starts_with (d # s) (c # t) = (d = c \<and> starts_with s t)"

fun includes_str :: "string \<Rightarrow> string \<Rightarrow> bool" where
  "includes_str [] t = (t = [])"
| "includes_str (c # s) t = (starts_with (c # s) t \<or> includes_str s t)"

text \<open>
  \<open>query.replace(/\?\?\?/g, r)\<close>: every occurrence of the marker, left to right and
  not overlapping, is replaced. (The replacements built by \<open>getManyRows\<close> contain no
  \<open>$\<close>, so no replacement pattern is involved.)
\<close>

fun replace_marker :: "string \<Rightarrow> string \<Rightarrow> string" where
  "replace_marker [] r = []"
| "replace_marker (c # s) r =
     (if starts_with (c # s) ''???'' then r @ replace_marker (drop 2 s) r
      else c # replace_marker s r)"

text \<open>\<open>String(v)\<close>, as used when a value becomes a property key.\<close>

fun to_property_key :: "jsval \<Rightarrow> string" where
  "to_property_key Undefined = ''undefined''"
| "to_property_key Null = ''null''"
| "to_property_key (Bool b) = (if b then ''true'' else ''false'')"
| "to_property_key (Num i) = (if i < 0 then ''-'' @ show_nat (nat (- i)) else show_nat (nat i))"
| "to_property_key (Str s) = s"

text \<open>\<open>obj[k]\<close> on an object of plain data: \<open>undefined\<close> for a missing property.\<close>

definition obj_get :: "jsobj \<Rightarrow> string \<Rightarrow> jsval" where
  "obj_get obj k = (case map_of obj k of Some v \<Rightarrow> v | None \<Rightarrow> Undefined)"

section \<open>The statement cache\<close>

text \<open>
  The names that \<open>sql in statementCache\<close> finds although they were never stored: the
  properties every object literal inherits.
\<close>

definition objectPrototypeKeys :: "string list" where
  "objectPrototypeKeys =
     [''constructor'', ''__defineGetter__'', ''__defineSetter__'', ''hasOwnProperty'',
      ''__lookupGetter__'', ''__lookupSetter__'', ''isPrototypeOf'',
      ''propertyIsEnumerable'', ''toString'', ''valueOf'', ''__proto__'',
      ''toLocaleString'']"

definition in_statementCache :: "state \<Rightarrow> string \<Rightarrow> bool" where
  "in_statementCache s sql \<longleftrightarrow> statementCache s sql \<noteq> None \<or> sql \<in> set objectPrototypeKeys"

definition statementCache_get :: "state \<Rightarrow> string \<Rightarrow> stmtval" where
  "statementCache_get s sql =
     (case statementCache s sql of Some v \<Rightarrow> v | None \<Rightarrow> Inherited sql)"

definition setDbConnection :: "nat option \<Rightarrow> state \<Rightarrow> state" where
  "setDbConnection connection s = s\<lparr>dbConnection := connection\<rparr>"

text \<open>
  \<open>stmt(sql)\<close>. With \<open>dbConnection\<close> undefined, \<open>dbConnection.prepare\<close> is a
  \<open>TypeError\<close> of the language, raised before the engine is reached. A compilation
  that raises stores nothing.
\<close>

definition stmt :: "env \<Rightarrow> string \<Rightarrow> stmtval action" where
  "stmt env sql s =
     (if \<not> in_statementCache s sql then
        (case dbConnection s of
           None \<Rightarrow> (Inl (TypeError ''Cannot read properties of undefined (reading prepare)''), s)
         | Some c \<Rightarrow>
             (case eng_prepare env (trace s) sql of
                Some e \<Rightarrow> (Inl e, emit (EPrepare sql) s)
              | None \<Rightarrow>
                  let h = Handle (length (trace s)) sql
                  in (Inr h, (emit (EPrepare sql) s)\<lparr>statementCache := (statementCache s)(sql \<mapsto> h)\<rparr>)))
      else (Inr (statementCache_get s sql), s))"

text \<open>
  The three methods of a statement. An inherited property of \<open>Object.prototype\<close> has
  none of them, so the call is a \<open>TypeError\<close>.
\<close>

definition stmt_run :: "env \<Rightarrow> stmtval \<Rightarrow> params option \<Rightarrow> runinfo action" where
  "stmt_run env h ps s =
     (case h of
        Inherited k \<Rightarrow> (Inl (TypeError ''stmt(...).run is not a function''), s)
      | Handle n q \<Rightarrow>
          (case eng_run env (trace s) h ps of
             Inl e \<Rightarrow> (Inl e, emit (ERun h ps) s)
           | Inr info \<Rightarrow> (Inr info, emit (ERun h ps) s)))"

definition stmt_get :: "env \<Rightarrow> stmtval \<Rightarrow> params option \<Rightarrow> jsobj option action" where
  "stmt_get env h ps s =
     (case h of
        Inherited k \<Rightarrow> (Inl (TypeError ''stmt(...).get is not a function''), s)
      | Handle n q \<Rightarrow>
          (case eng_get env (trace s) h ps of
             Inl e \<Rightarrow> (Inl e, emit (EGet h ps) s)
           | Inr row \<Rightarrow> (Inr row, emit (EGet h ps) s)))"

definition stmt_all :: "env \<Rightarrow> stmtval \<Rightarrow> params option \<Rightarrow> jsobj list action" where
  "stmt_all env h ps s =
     (case h of
        Inherited k \<Rightarrow> (Inl (TypeError ''stmt(...).all is not a function''), s)
      | Handle n q \<Rightarrow>
          (case eng_all env (trace s) h ps of
             Inl e \<Rightarrow> (Inl e, emit (EAll h ps) s)
           | Inr rows \<Rightarrow> (Inr rows, emit (EAll h ps) s)))"

definition beginTransaction :: "env \<Rightarrow> runinfo action" where
  "beginTransaction env = and_then (stmt env ''BEGIN'') (\<lambda>h. stmt_run env h None)"

definition commit :: "env \<Rightarrow> runinfo action" where
  "commit env = and_then (stmt env ''COMMIT'') (\<lambda>h. stmt_run env h None)"

definition rollback :: "env \<Rightarrow> runinfo action" where
  "rollback env = and_then (stmt env ''ROLLBACK'') (\<lambda>h. stmt_run env h None)"

section \<open>Query wrapping\<close>

definition wrap :: "env \<Rightarrow> 'a action \<Rightarrow> string \<Rightarrow> 'a action" where
  "wrap env func query s =
     (if dbConnection s = None then (Inl (Error ''DB connection not initialized yet''), s)
      else
        let startTimestamp = date_now env (trace s) in
        (case func s of
           (Inr result, s1) \<Rightarrow>
             let milliseconds = date_now env (trace s1) - startTimestamp in
             (Inr result,
              if milliseconds \<ge> 300 then
                (if includes_str query ''WITH RECURSIVE''
                 then log_info (SlowRecursive milliseconds) s1
                 else log_info (SlowQuery milliseconds query) s1)
              else s1)
         | (Inl e, s1) \<Rightarrow> (Inl (WrappedError e), log_error (QueryError e) s1)))"

section \<open>The transaction coordinator: the lazy BEGIN\<close>

definition startTransactionIfNecessary :: "env \<Rightarrow> unit action" where
  "startTransactionIfNecessary env s =
     (if \<not> cls_get KIsTransactional s \<or> cls_get KIsInTransaction s then (Inr (), s)
      else
        (case beginTransaction env (cls_set KIsInTransaction True s) of
           (Inl e, s1) \<Rightarrow> (Inl e, s1)
         | (Inr info, s1) \<Rightarrow> (Inr (), s1)))"

section \<open>Row access\<close>

definition getRow :: "env \<Rightarrow> string \<Rightarrow> params \<Rightarrow> jsobj option action" where
  "getRow env query ps = wrap env (and_then (stmt env query) (\<lambda>h. stmt_get env h (Some ps))) query"

definition getRows :: "env \<Rightarrow> string \<Rightarrow> params \<Rightarrow> jsobj list action" where
  "getRows env query ps = wrap env (and_then (stmt env query) (\<lambda>h. stmt_all env h (Some ps))) query"

text \<open>\<open>None\<close> is \<open>null\<close>.\<close>

definition getRowOrNull :: "env \<Rightarrow> string \<Rightarrow> params \<Rightarrow> jsobj option action" where
  "getRowOrNull env query ps =
     and_then (getRows env query ps)
       (\<lambda>all s. (Inr (if length all > 0 then Some (all ! 0) else None), s))"

text \<open>The property key of \<open>keys[i]\<close> used as an index: \<open>undefined\<close> when out of range.\<close>

definition key_at :: "string list \<Rightarrow> nat \<Rightarrow> string" where
  "key_at ks i = (if i < length ks then ks ! i else ''undefined'')"

definition getValue :: "env \<Rightarrow> string \<Rightarrow> params \<Rightarrow> jsval action" where
  "getValue env query ps =
     and_then (getRowOrNull env query ps)
       (\<lambda>row s.
          (case row of
             None \<Rightarrow> (Inr Null, s)
           | Some r \<Rightarrow> (Inr (obj_get r (key_at (map fst r) 0)), s)))"

definition PARAM_LIMIT :: nat where
  "PARAM_LIMIT = 900"

text \<open>
  The body of the loop of \<open>getManyRows\<close>: the object \<open>curParamsObj\<close> built from a
  batch, and the placeholders \<open>questionMarks\<close> for a batch of \<open>n\<close> parameters.
\<close>

definition curParamsObj_of :: "jsval list \<Rightarrow> jsobj" where
  "curParamsObj_of curParams =
     zip (map (\<lambda>j. ''param'' @ show_nat j) [1 ..< Suc (length curParams)]) curParams"

definition questionMarks_of :: "nat \<Rightarrow> string" where
  "questionMarks_of n = join '','' (map (\<lambda>i. '':param'' @ show_nat i) [1 ..< Suc n])"

function getManyRows_loop ::
  "env \<Rightarrow> string \<Rightarrow> jsval list \<Rightarrow> jsobj list \<Rightarrow> jsobj list action" where
  "getManyRows_loop env query ps results s =
     (if length ps > 0 then
        let curParams = take (min (length ps) PARAM_LIMIT) ps;
            ps' = drop (length curParams) ps;
            curParamsObj = curParamsObj_of curParams;
            questionMarks = questionMarks_of (length curParams);
            curQuery = replace_marker query questionMarks
        in (case getRows env curQuery (PObj curParamsObj) s of
              (Inl e, s1) \<Rightarrow> (Inl e, s1)
            | (Inr rows, s1) \<Rightarrow> getManyRows_loop env query ps' (results @ rows) s1)
      else (Inr results, s))"
  by pat_completeness auto
termination
  by (relation "measure (\<lambda>(env, query, ps, results, s). length ps)")
     (auto simp: PARAM_LIMIT_def)

declare getManyRows_loop.simps [simp del]

definition getManyRows :: "env \<Rightarrow> string \<Rightarrow> jsval list \<Rightarrow> jsobj list action" where
  "getManyRows env query ps = getManyRows_loop env query ps []"

text \<open>
  The loop of \<open>getMap\<close>, on the own properties of \<open>map\<close>. The object literal inherits
  the accessor \<open>__proto__\<close>: assigning under that name stores no property; assigning
  \<open>null\<close> there removes the prototype (the flag), after which the name is an ordinary
  one. (The values are primitives, so no other prototype can be set.)
\<close>

fun getMap_loop ::
  "jsobj list \<Rightarrow> (string \<rightharpoonup> jsval) \<times> bool \<Rightarrow> (string \<rightharpoonup> jsval) \<times> bool" where
  "getMap_loop [] (m, detached) = (m, detached)"
| "getMap_loop (row # rows) (m, detached) =
     (let keys = map fst row;
          k = to_property_key (obj_get row (key_at keys 0));
          v = obj_get row (key_at keys 1)
      in if k = ''__proto__'' \<and> \<not> detached
         then getMap_loop rows (m, v = Null)
         else getMap_loop rows (m(k \<mapsto> v), detached))"

definition getMap :: "env \<Rightarrow> string \<Rightarrow> params \<Rightarrow> (string \<rightharpoonup> jsval) action" where
  "getMap env query ps =
     and_then (getRows env query ps)
       (\<lambda>results s. (Inr (fst (getMap_loop results (Map.empty, False))), s))"

definition getColumn :: "env \<Rightarrow> string \<Rightarrow> params \<Rightarrow> jsval list action" where
  "getColumn env query ps =
     and_then (getRows env query ps)
       (\<lambda>result s.
          if length result = 0 then (Inr [], s)
          else
            let key = key_at (map fst (result ! 0)) 0
            in (Inr (map (\<lambda>row. obj_get row key) result), s))"

section \<open>Mutations\<close>

definition execute :: "env \<Rightarrow> string \<Rightarrow> params \<Rightarrow> runinfo action" where
  "execute env query ps =
     and_then (startTransactionIfNecessary env)
       (\<lambda>u. wrap env (and_then (stmt env query) (\<lambda>h. stmt_run env h (Some ps))) query)"

definition executeWithoutTransaction :: "env \<Rightarrow> string \<Rightarrow> params \<Rightarrow> unit action" where
  "executeWithoutTransaction env query ps s =
     (case dbConnection s of
        None \<Rightarrow> (Inl (TypeError ''Cannot read properties of undefined (reading run)''), s)
      | Some c \<Rightarrow>
          (case eng_conn_run env (trace s) query ps of
             Some e \<Rightarrow> (Inl e, emit (EConnRun query ps) s)
           | None \<Rightarrow> (Inr (), emit (EConnRun query ps) s)))"

text \<open>\<open>executeMany\<close> calls \<open>getManyRows\<close> and returns nothing.\<close>

definition executeMany :: "env \<Rightarrow> string \<Rightarrow> jsval list \<Rightarrow> unit action" where
  "executeMany env query ps =
     and_then (startTransactionIfNecessary env)
       (\<lambda>u. and_then (getManyRows env query ps) (\<lambda>rows s. (Inr (), s)))"

text \<open>
  \<open>executeScript\<close> calls \<open>stmt.run(query)\<close>: \<open>stmt\<close> is the function itself, which has
  no property \<open>run\<close>, so the wrapped function raises a \<open>TypeError\<close>.
\<close>

definition executeScript :: "env \<Rightarrow> string \<Rightarrow> runinfo action" where
  "executeScript env query =
     and_then (startTransactionIfNecessary env)
       (\<lambda>u. wrap env (\<lambda>s. (Inl (TypeError ''stmt.run is not a function''), s)) query)"

text \<open>The query texts that \<open>insert\<close> and \<open>upsert\<close> build from the keys of a record.\<close>

definition insert_query :: "string \<Rightarrow> string list \<Rightarrow> bool \<Rightarrow> string" where
  "insert_query tableName keys replace =
     (let columns = join '', '' keys;
          questionMarks = join '', '' (map (\<lambda>p. ''?'') keys)
      in ''INSERT '' @ (if replace then ''OR REPLACE'' else []) @ '' INTO '' @ tableName
         @ ''('' @ columns @ '') VALUES ('' @ questionMarks @ '')'')"

definition upsert_query :: "string \<Rightarrow> string \<Rightarrow> string list \<Rightarrow> string" where
  "upsert_query tableName primaryKey keys =
     (let columns = join '', '' keys;
          questionMarks = join '', '' (map (\<lambda>colName. ''@'' @ colName) keys);
          updateMarks = join '', '' (map (\<lambda>colName. colName @ '' = @'' @ colName) keys)
      in ''INSERT INTO '' @ tableName @ '' ('' @ columns @ '') VALUES ('' @ questionMarks
         @ '') '' @ [CHR 0x0A] @ replicate 19 (CHR '' '') @ ''ON CONFLICT ('' @ primaryKey
         @ '') DO UPDATE SET '' @ updateMarks)"

text \<open>
  \<open>insert\<close> returns \<open>res.lastInsertRowid\<close>, or \<open>undefined\<close> for a record without
  fields.
\<close>

definition insert_rec :: "env \<Rightarrow> string \<Rightarrow> jsobj \<Rightarrow> bool \<Rightarrow> jsval action" where
  "insert_rec env tableName rec replace s =
     (let keys = map fst rec in
      if length keys = 0 then
        (Inr Undefined,
         log_error (Msg (''Can'' @ [CHR 0x27] @ ''t insert empty object into table '' @ tableName)) s)
      else
        (case execute env (insert_query tableName keys replace) (PArr (map snd rec)) s of
           (Inl e, s1) \<Rightarrow> (Inl e, s1)
         | (Inr res, s1) \<Rightarrow> (Inr (Num (lastInsertRowid res)), s1)))"

definition replace_rec :: "env \<Rightarrow> string \<Rightarrow> jsobj \<Rightarrow> jsval action" where
  "replace_rec env tableName rec = insert_rec env tableName rec True"

text \<open>
  The loop of \<open>upsert\<close> over the fields of \<open>rec\<close>, which assigns into \<open>rec\<close> itself.
\<close>

definition normalize_booleans :: "jsobj \<Rightarrow> jsobj" where
  "normalize_booleans rec =
     map (\<lambda>(idx, v). (idx, if v = Bool True \<or> v = Bool False
                            then (if v = Bool True then Num 1 else Num 0) else v)) rec"

text \<open>
  \<open>upsert\<close> returns nothing. Since it assigns into the caller's object, the result
  is paired with the object as the caller finds it afterwards.
\<close>

definition upsert ::
  "env \<Rightarrow> string \<Rightarrow> string \<Rightarrow> jsobj \<Rightarrow> state \<Rightarrow> (jsError + unit) \<times> jsobj \<times> state" where
  "upsert env tableName primaryKey rec s =
     (let keys = map fst rec in
      if length keys = 0 then
        (Inr (), rec,
         log_error (Msg (''Can'' @ [CHR 0x27] @ ''t upsert empty object into table '' @ tableName)) s)
      else
        let rec' = normalize_booleans rec
        in (case execute env (upsert_query tableName primaryKey keys) (PObj rec') s of
              (Inl e, s1) \<Rightarrow> (Inl e, rec', s1)
            | (Inr res, s1) \<Rightarrow> (Inr (), rec', s1)))"

section \<open>The transaction coordinator: scopes\<close>

text \<open>The \<open>catch\<close> block of \<open>transactional\<close>.\<close>

definition transactional_catch :: "env \<Rightarrow> jsError \<Rightarrow> 'a action" where
  "transactional_catch env e s =
     (if cls_get KIsInTransaction s then
        (case rollback env s of
           (Inl e', s1) \<Rightarrow> (Inl e', s1)
         | (Inr info, s1) \<Rightarrow> (Inl e, s1))
      else (Inl e, s))"

text \<open>The \<open>finally\<close> block of \<open>transactional\<close>.\<close>

definition transactional_finally :: "state \<Rightarrow> state" where
  "transactional_finally s =
     (let s1 = cls_set KIsTransactional False s
      in if cls_get KIsInTransaction s1 then cls_set KIsInTransaction False s1 else s1)"

text \<open>The \<open>try\<close> block of \<open>transactional\<close> together with its \<open>catch\<close>.\<close>

definition transactional_try :: "env \<Rightarrow> 'a action \<Rightarrow> 'a action" where
  "transactional_try env func s =
     (case func s of
        (Inr ret, s1) \<Rightarrow>
          (if cls_get KIsInTransaction s1 then
             (case commit env s1 of
                (Inl e, s2) \<Rightarrow> transactional_catch env e s2
              | (Inr info, s2) \<Rightarrow>
                  (case sendPingToAllClients env s2 of
                     (Inl e, s3) \<Rightarrow> transactional_catch env e s3
                   | (Inr u, s3) \<Rightarrow> (Inr ret, s3)))
           else (Inr ret, s1))
      | (Inl e, s1) \<Rightarrow> transactional_catch env e s1)"

definition transactional :: "env \<Rightarrow> 'a action \<Rightarrow> 'a action" where
  "transactional env func s =
     (if cls_get KIsTransactional s then func s
      else
        (case transactional_try env func (cls_set KIsTransactional True s) of
           (r, s') \<Rightarrow> (r, transactional_finally s')))"

section \<open>Observations\<close>

text \<open>
  What a call added to the trace, and the fact that it only added to it.
\<close>

definition new_events :: "state \<Rightarrow> state \<Rightarrow> event list" where
  "new_events s s' = drop (length (trace s)) (trace s')"

definition extends :: "state \<Rightarrow> state \<Rightarrow> bool" where
  "extends s s' \<longleftrightarrow> take (length (trace s)) (trace s') = trace s"

text \<open>
  The transaction verbs of the coordinator are the only calls of \<open>run()\<close> without an
  argument; the text of the statement tells them apart.
\<close>

fun is_verb :: "string \<Rightarrow> event \<Rightarrow> bool" where
  "is_verb v (ERun (Handle n q) None) = (q = v)"
| "is_verb v ev = False"

definition is_begin :: "event \<Rightarrow> bool" where
  "is_begin = is_verb ''BEGIN''"

definition is_commit :: "event \<Rightarrow> bool" where
  "is_commit = is_verb ''COMMIT''"

definition is_rollback :: "event \<Rightarrow> bool" where
  "is_rollback = is_verb ''ROLLBACK''"

fun is_ping :: "event \<Rightarrow> bool" where
  "is_ping EPing = True"
| "is_ping ev = False"

fun is_run :: "event \<Rightarrow> bool" where
  "is_run (ERun h ps) = True"
| "is_run ev = False"

text \<open>Calls that reach the storage engine, as opposed to the logger and the notifier.\<close>

fun is_engine_call :: "event \<Rightarrow> bool" where
  "is_engine_call (ELogError m) = False"
| "is_engine_call (ELogInfo m) = False"
| "is_engine_call EPing = False"
| "is_engine_call ev = True"

text \<open>Executions of a statement, as opposed to its compilation.\<close>

fun is_execution :: "event \<Rightarrow> bool" where
  "is_execution (ERun h ps) = True"
| "is_execution (EGet h ps) = True"
| "is_execution (EAll h ps) = True"
| "is_execution ev = False"

text \<open>The number of bound parameters of an execution.\<close>

fun bound_count :: "event \<Rightarrow> nat" where
  "bound_count (EAll h (Some (PObj obj))) = length obj"
| "bound_count (EAll h (Some (PArr xs))) = length xs"
| "bound_count ev = 0"

text \<open>
  Every stored statement was compiled from the text it is stored under; the flag
  \<open>isInTransaction\<close> is only set inside a scope.
\<close>

definition cache_ok :: "state \<Rightarrow> bool" where
  "cache_ok s \<longleftrightarrow> (\<forall>sql v. statementCache s sql = Some v \<longrightarrow> (\<exists>n. v = Handle n sql))"

definition flags_ok :: "state \<Rightarrow> bool" where
  "flags_ok s \<longleftrightarrow> (isInTransaction s \<longrightarrow> isTransactional s)"

definition accepts_begin :: "env \<Rightarrow> bool" where
  "accepts_begin env \<longleftrightarrow> (\<forall>tr. eng_prepare env tr ''BEGIN'' = None)"

text \<open>
  What a piece of client code does to the module when it reaches the module only
  through its exported query and mutation functions (and through \<open>transactional\<close>):
  it adds to the trace, keeps the connection and the invariants, and
  \<^item> inside a scope it leaves \<open>isTransactional\<close> set, issues no COMMIT, no ROLLBACK and
    no notification, and issues a BEGIN at most once, namely when it sets
    \<open>isInTransaction\<close>;
  \<^item> outside a scope it ends outside a scope.
\<close>

definition scope_step :: "env \<Rightarrow> state \<Rightarrow> state \<Rightarrow> bool" where
  "scope_step env s s' \<longleftrightarrow>
     extends s s' \<and> dbConnection s' = dbConnection s \<and> cache_ok s' \<and> flags_ok s' \<and>
     (if isTransactional s then
        isTransactional s' \<and>
        \<not> list_ex is_commit (new_events s s') \<and>
        \<not> list_ex is_rollback (new_events s s') \<and>
        \<not> list_ex is_ping (new_events s s') \<and>
        (if isInTransaction s then isInTransaction s' \<and> \<not> list_ex is_begin (new_events s s')
         else length (filter is_begin (new_events s s')) \<le> 1 \<and>
              (list_ex is_begin (new_events s s') \<longrightarrow> isInTransaction s') \<and>
              (dbConnection s \<noteq> None \<and> accepts_begin env \<and> isInTransaction s'
                 \<longrightarrow> list_ex is_begin (new_events s s')))
      else \<not> isTransactional s')"

definition well_behaved :: "env \<Rightarrow> 'a action \<Rightarrow> bool" where
  "well_behaved env m \<longleftrightarrow> (\<forall>s. cache_ok s \<and> flags_ok s \<longrightarrow> scope_step env s (snd (m s)))"

text \<open>Calling \<open>stmt\<close> for each text of a list, whatever the calls return or raise.\<close>

fun stmts :: "env \<Rightarrow> string list \<Rightarrow> state \<Rightarrow> state" where
  "stmts env [] s = s"
| "stmts env (q # qs) s = stmts env qs (snd (stmt env q s))"

section \<open>Fixtures\<close>

text \<open>
  The module as it is loaded (\<open>dbConnection\<close> undefined, \<open>statementCache\<close> empty, both
  flags unset), and after \<open>setDbConnection\<close>.
\<close>

definition initial_state :: state where
  "initial_state =
     \<lparr>dbConnection = None, statementCache = Map.empty, isTransactional = False,
      isInTransaction = False, trace = []\<rparr>"

definition connected_state :: state where
  "connected_state = setDbConnection (Some 0) initial_state"

text \<open>
  An engine that accepts every statement and answers every query with one row that
  holds the number of bound parameters, a clock that advances by one millisecond per
  recorded event, and a notifier that returns normally.
\<close>

fun params_size :: "params option \<Rightarrow> nat" where
  "params_size None = 0"
| "params_size (Some (PArr xs)) = length xs"
| "params_size (Some (PObj obj)) = length obj"

definition accepting_env :: env where
  "accepting_env =
     \<lparr>eng_prepare = (\<lambda>tr q. None),
      eng_run = (\<lambda>tr h ps. Inr \<lparr>changes = 1, lastInsertRowid = int (length tr)\<rparr>),
      eng_get = (\<lambda>tr h ps. Inr (Some [(''n'', Num (int (params_size ps)))])),
      eng_all = (\<lambda>tr h ps. Inr [[(''n'', Num (int (params_size ps)))]]),
      eng_conn_run = (\<lambda>tr q ps. None),
      date_now = (\<lambda>tr. int (length tr)),
      ws_sendPing = (\<lambda>tr. None)\<rparr>"

text \<open>The same with a notifier that raises.\<close>

definition failing_ping_env :: env where
  "failing_ping_env = accepting_env\<lparr>ws_sendPing := (\<lambda>tr. Some (Error ''socket closed''))\<rparr>"

text \<open>The same with an engine that refuses ROLLBACK.\<close>

definition failing_rollback_env :: env where
  "failing_rollback_env =
     accepting_env
       \<lparr>eng_run := (\<lambda>tr h ps.
          (case h of
             Handle n q \<Rightarrow>
               if q = ''ROLLBACK''
               then Inl (EngineError ''cannot rollback - no transaction is active'')
               else Inr \<lparr>changes = 1, lastInsertRowid = int (length tr)\<rparr>
           | Inherited k \<Rightarrow> Inl (TypeError ''not a statement'')))\<rparr>"

text \<open>The same with an engine that refuses to compile any statement.\<close>

definition rejecting_env :: env where
  "rejecting_env = accepting_env\<lparr>eng_prepare := (\<lambda>tr q. Some (EngineError ''syntax error''))\<rparr>"

text \<open>A body that raises after one write.\<close>

definition write_then_throw :: "env \<Rightarrow> jsError \<Rightarrow> unit action" where
  "write_then_throw env e =
     and_then (execute env ''DELETE FROM notes'' (PArr [])) (\<lambda>res s. (Inl e, s))"

text \<open>A state inside a scope in which no BEGIN was issued yet.\<close>

definition pending_state :: state where
  "pending_state = connected_state\<lparr>isTransactional := True\<rparr>"

text \<open>A record with two boolean fields.\<close>

definition sample_record :: jsobj where
  "sample_record = [(''noteId'', Str ''n1''), (''isProtected'', Bool True), (''isDeleted'', Bool False)]"

text \<open>A template with the chunk marker.\<close>

definition delete_many :: string where
  "delete_many = ''DELETE FROM notes WHERE noteId IN (???)''"

section \<open>Auxiliary notions for the proofs\<close>

text \<open>A step that leaves the connection and both flags alone, keeps the cache invariant
  and adds only events of a given kind.\<close>

definition quiet :: "(event \<Rightarrow> bool) \<Rightarrow> state \<Rightarrow> state \<Rightarrow> bool" where
  "quiet P s s' \<longleftrightarrow>
     extends s s' \<and> dbConnection s' = dbConnection s \<and>
     isTransactional s' = isTransactional s \<and> isInTransaction s' = isInTransaction s \<and>
     (cache_ok s \<longrightarrow> cache_ok s') \<and> list_all P (new_events s s')"

text \<open>An action all of whose steps are of that kind.\<close>

definition quietly :: "(event \<Rightarrow> bool) \<Rightarrow> 'a action \<Rightarrow> bool" where
  "quietly P m \<longleftrightarrow> (\<forall>s. quiet P s (snd (m s)))"

text \<open>A call of \<open>run()\<close> without an argument.\<close>

fun is_bare_run :: "event \<Rightarrow> bool" where
  "is_bare_run (ERun h None) = True"
| "is_bare_run ev = False"

text \<open>The events a read helper may add: no \<open>run\<close>, no notification.\<close>

definition read_event :: "event \<Rightarrow> bool" where
  "read_event ev \<longleftrightarrow> \<not> is_run ev \<and> \<not> is_ping ev \<and> (\<forall>q ps. ev \<noteq> EConnRun q ps)"

text \<open>The events a write may add besides the lazy BEGIN.\<close>

definition write_event :: "event \<Rightarrow> bool" where
  "write_event ev \<longleftrightarrow> \<not> is_bare_run ev \<and> \<not> is_ping ev"

text \<open>The events of one transaction verb: its compilation and its execution.\<close>

definition verb_event :: "string \<Rightarrow> event \<Rightarrow> bool" where
  "verb_event v ev \<longleftrightarrow> ev = EPrepare v \<or> is_verb v ev"

text \<open>The events the owning \<open>transactional\<close> call adds after its body.\<close>

definition tail_event :: "event \<Rightarrow> bool" where
  "tail_event ev \<longleftrightarrow> verb_event ''COMMIT'' ev \<or> verb_event ''ROLLBACK'' ev \<or> ev = EPing"

text \<open>A step made of such events, with bounds on how many of each kind it adds.\<close>

definition tail_step :: "nat \<Rightarrow> nat \<Rightarrow> nat \<Rightarrow> state \<Rightarrow> state \<Rightarrow> bool" where
  "tail_step nc nr np s s' \<longleftrightarrow>
     quiet tail_event s s' \<and> cache_ok s' \<and>
     filter is_begin (new_events s s') = [] \<and>
     length (filter is_commit (new_events s s')) \<le> nc \<and>
     length (filter is_rollback (new_events s s')) \<le> nr \<and>
     length (filter is_ping (new_events s s')) \<le> np"

text \<open>A step that only adds events of a given kind to the trace.\<close>

definition adds_only :: "(event \<Rightarrow> bool) \<Rightarrow> state \<Rightarrow> state \<Rightarrow> bool" where
  "adds_only P s s' \<longleftrightarrow> extends s s' \<and> list_all P (new_events s s')"

text \<open>
  A call that only adds to the trace, leaves both flags as they are and never calls
  \<open>run\<close> on a statement.
\<close>

definition leaves_transaction_alone :: "state \<Rightarrow> state \<Rightarrow> bool" where
  "leaves_transaction_alone s s' \<longleftrightarrow>
     extends s s' \<and> isTransactional s' = isTransactional s \<and>
     isInTransaction s' = isInTransaction s \<and> \<not> list_ex is_run (new_events s s')"

text \<open>The error that \<open>wrap\<close> raises while \<open>dbConnection\<close> is undefined.\<close>

definition connection_not_initialized :: jsError where
  "connection_not_initialized = Error ''DB connection not initialized yet''"

text \<open>An engine that compiles every text and answers every call of \<open>all\<close>.\<close>

definition accepts_queries :: "env \<Rightarrow> bool" where
  "accepts_queries env \<longleftrightarrow>
     (\<forall>tr q. eng_prepare env tr q = None) \<and> (\<forall>tr h ps. \<not> isl (eng_all env tr h ps))"

text \<open>An engine that executes every transaction verb.\<close>

definition accepts_verbs :: "env \<Rightarrow> bool" where
  "accepts_verbs env \<longleftrightarrow> (\<forall>tr h. \<not> isl (eng_run env tr h None))"

text \<open>An execution of a statement other than the BEGIN of the coordinator.\<close>

definition is_batch :: "event \<Rightarrow> bool" where
  "is_batch ev \<longleftrightarrow> is_execution ev \<and> \<not> is_begin ev"

section \<open>Traces and quiet steps\<close>

lemma extends_iff: "extends s s' \<longleftrightarrow> (\<exists>evs. trace s' = trace s @ evs)"
  unfolding extends_def
  by (metis append_eq_conv_conj append_take_drop_id)

lemma extends_new_events: "extends s s' \<Longrightarrow> trace s' = trace s @ new_events s s'"
  unfolding extends_def new_events_def
  by (metis append_take_drop_id)

lemma extends_refl [simp]: "extends s s"
  by (simp add: extends_def)

lemma new_events_refl [simp]: "new_events s s = []"
  by (simp add: new_events_def)

lemma extends_trans: "extends s s1 \<Longrightarrow> extends s1 s2 \<Longrightarrow> extends s s2"
  by (auto simp: extends_iff)

lemma new_events_trans:
  "extends s s1 \<Longrightarrow> extends s1 s2 \<Longrightarrow> new_events s s2 = new_events s s1 @ new_events s1 s2"
  by (auto simp: extends_iff new_events_def)

lemma extends_emit [simp]: "extends s (emit ev s)"
  by (simp add: extends_def emit_def)

lemma new_events_emit [simp]: "new_events s (emit ev s) = [ev]"
  by (simp add: new_events_def emit_def)

lemma emit_fields [simp]:
  "dbConnection (emit ev s) = dbConnection s"
  "statementCache (emit ev s) = statementCache s"
  "isTransactional (emit ev s) = isTransactional s"
  "isInTransaction (emit ev s) = isInTransaction s"
  "trace (emit ev s) = trace s @ [ev]"
  by (simp_all add: emit_def)

lemma cache_ok_emit [simp]: "cache_ok (emit ev s) = cache_ok s"
  by (simp add: cache_ok_def)

lemma quiet_refl [simp]: "quiet P s s"
  by (simp add: quiet_def)

lemma quiet_trans:
  assumes "quiet P s s1" and "quiet P s1 s2"
  shows "quiet P s s2"
proof -
  have e1: "extends s s1" and e2: "extends s1 s2"
    using assms by (simp_all add: quiet_def)
  have "new_events s s2 = new_events s s1 @ new_events s1 s2"
    using e1 e2 by (rule new_events_trans)
  moreover have "extends s s2" using e1 e2 by (rule extends_trans)
  ultimately show ?thesis
    using assms by (simp add: quiet_def)
qed

lemma quiet_mono: "quiet P s s' \<Longrightarrow> (\<And>ev. P ev \<Longrightarrow> Q ev) \<Longrightarrow> quiet Q s s'"
  unfolding quiet_def by (auto simp: list_all_iff)

lemma quiet_emit: "P ev \<Longrightarrow> quiet P s (emit ev s)"
  by (simp add: quiet_def)

lemma quietly_and_then:
  assumes "quietly P m" and "\<And>v. quietly P (f v)"
  shows "quietly P (and_then m f)"
  unfolding quietly_def
proof
  fix s
  obtain r s1 where m: "m s = (r, s1)" by (cases "m s")
  have q1: "quiet P s s1" using assms(1) m unfolding quietly_def by (metis snd_conv)
  show "quiet P s (snd (and_then m f s))"
  proof (cases r)
    case (Inl e)
    then show ?thesis using m q1 by (simp add: and_then_def)
  next
    case (Inr v)
    have "quiet P s1 (snd (f v s1))" using assms(2) unfolding quietly_def by blast
    then show ?thesis using m q1 Inr by (simp add: and_then_def quiet_trans)
  qed
qed

lemma quietly_return [simp]: "quietly P (\<lambda>s. (r, s))"
  by (simp add: quietly_def)

lemma quietly_stmt: "P (EPrepare sql) \<Longrightarrow> quietly P (stmt env sql)"
  unfolding quietly_def stmt_def
  by (auto simp: quiet_def Let_def cache_ok_def new_events_def extends_def emit_def split: option.splits)

lemma quietly_stmt_run: "(\<And>n q. h = Handle n q \<Longrightarrow> P (ERun h ps)) \<Longrightarrow> quietly P (stmt_run env h ps)"
  unfolding quietly_def stmt_run_def
  by (auto simp: quiet_def split: stmtval.splits sum.splits)

lemma quietly_stmt_get: "P (EGet h ps) \<Longrightarrow> quietly P (stmt_get env h ps)"
  unfolding quietly_def stmt_get_def
  by (auto simp: quiet_def split: stmtval.splits sum.splits)

lemma quietly_stmt_all: "P (EAll h ps) \<Longrightarrow> quietly P (stmt_all env h ps)"
  unfolding quietly_def stmt_all_def
  by (auto simp: quiet_def split: stmtval.splits sum.splits)

lemma quietly_wrap:
  assumes "quietly P func" and "\<And>m. P (ELogError m)" and "\<And>m. P (ELogInfo m)"
  shows "quietly P (wrap env func query)"
  unfolding quietly_def
proof
  fix s
  obtain r s1 where f: "func s = (r, s1)" by (cases "func s")
  have q1: "quiet P s s1" using assms(1) f unfolding quietly_def by (metis snd_conv)
  have e: "\<And>ev. P ev \<Longrightarrow> quiet P s (emit ev s1)"
    using q1 quiet_emit quiet_trans by blast
  show "quiet P s (snd (wrap env func query s))"
    using f q1 e assms(2,3)
    by (cases r) (auto simp: wrap_def Let_def log_info_def log_error_def)
qed

section \<open>The read helpers are quiet\<close>

lemma read_event_simps [simp]:
  "read_event (EPrepare q)" "read_event (EGet h ps)" "read_event (EAll h ps)"
  "read_event (ELogError m)" "read_event (ELogInfo m)"
  "\<not> read_event (ERun h ps)" "\<not> read_event EPing" "\<not> read_event (EConnRun q x)"
  by (simp_all add: read_event_def)

lemma write_event_simps [simp]:
  "write_event (EPrepare q)" "write_event (EGet h ps)" "write_event (EAll h ps)"
  "write_event (ELogError m)" "write_event (ELogInfo m)" "write_event (EConnRun q x)"
  "write_event (ERun h (Some y))" "\<not> write_event (ERun h None)" "\<not> write_event EPing"
  by (simp_all add: write_event_def)

lemma read_write_event: "read_event ev \<Longrightarrow> write_event ev"
  by (cases ev) (auto simp: read_event_def write_event_def)

lemma quietly_mono: "quietly P m \<Longrightarrow> (\<And>ev. P ev \<Longrightarrow> Q ev) \<Longrightarrow> quietly Q m"
  unfolding quietly_def using quiet_mono by blast

lemma quietly_getRow: "quietly read_event (getRow env q ps)"
  unfolding getRow_def
  by (intro quietly_wrap quietly_and_then quietly_stmt quietly_stmt_get) simp_all

lemma quietly_getRows: "quietly read_event (getRows env q ps)"
  unfolding getRows_def
  by (intro quietly_wrap quietly_and_then quietly_stmt quietly_stmt_all) simp_all

lemma quietly_getRowOrNull: "quietly read_event (getRowOrNull env q ps)"
  unfolding getRowOrNull_def
  by (intro quietly_and_then quietly_getRows quietly_return)

lemma quietly_getValue: "quietly read_event (getValue env q ps)"
  unfolding getValue_def
  by (intro quietly_and_then quietly_getRowOrNull) (simp add: quietly_def split: option.splits)

lemma quietly_getMap: "quietly read_event (getMap env q ps)"
  unfolding getMap_def
  by (intro quietly_and_then quietly_getRows quietly_return)

lemma quietly_getColumn: "quietly read_event (getColumn env q ps)"
  unfolding getColumn_def
  by (intro quietly_and_then quietly_getRows) (simp add: quietly_def Let_def)

lemma getManyRows_loop_Nil [simp]: "getManyRows_loop env query [] results s = (Inr results, s)"
  by (simp add: getManyRows_loop.simps)

lemma getManyRows_loop_step:
  assumes "ps \<noteq> []"
  shows "getManyRows_loop env query ps results s =
     (case getRows env (replace_marker query (questionMarks_of (min (length ps) PARAM_LIMIT)))
             (PObj (curParamsObj_of (take PARAM_LIMIT ps))) s of
        (Inl e, s1) \<Rightarrow> (Inl e, s1)
      | (Inr rows, s1) \<Rightarrow> getManyRows_loop env query (drop PARAM_LIMIT ps) (results @ rows) s1)"
proof -
  have t: "take (min (length ps) PARAM_LIMIT) ps = take PARAM_LIMIT ps"
    by (simp add: min_def)
  have l: "length (take PARAM_LIMIT ps) = min (length ps) PARAM_LIMIT"
    by simp
  have d: "drop (min (length ps) PARAM_LIMIT) ps = drop PARAM_LIMIT ps"
    by (simp add: min_def)
  show ?thesis
    using assms
    by (subst getManyRows_loop.simps) (simp only: Let_def t l d length_greater_0_conv if_True not_False_eq_True)
qed

lemma quiet_getManyRows_loop: "quiet read_event s (snd (getManyRows_loop env q ps results s))"
proof (induction "length ps" arbitrary: ps results s rule: less_induct)
  case less
  show ?case
  proof (cases "ps = []")
    case True
    then show ?thesis by simp
  next
    case False
    let ?q = "replace_marker q (questionMarks_of (min (length ps) PARAM_LIMIT))"
    let ?o = "PObj (curParamsObj_of (take PARAM_LIMIT ps))"
    obtain r s1 where g: "getRows env ?q ?o s = (r, s1)"
      by (cases "getRows env ?q ?o s")
    have q1: "quiet read_event s s1"
      using quietly_getRows [of env ?q ?o] g unfolding quietly_def by (metis snd_conv)
    have shorter: "length (drop PARAM_LIMIT ps) < length ps"
      using False by (simp add: PARAM_LIMIT_def)
    show ?thesis
    proof (cases r)
      case (Inl e)
      then show ?thesis using g q1 by (simp add: getManyRows_loop_step [OF False])
    next
      case (Inr rows)
      have "quiet read_event s1 (snd (getManyRows_loop env q (drop PARAM_LIMIT ps) (results @ rows) s1))"
        using less [OF shorter] .
      then show ?thesis
        using g q1 Inr by (simp add: getManyRows_loop_step [OF False] quiet_trans)
    qed
  qed
qed

lemma quietly_getManyRows: "quietly read_event (getManyRows env q ps)"
  by (simp add: quietly_def getManyRows_def quiet_getManyRows_loop)

section \<open>Steps of client code\<close>

lemma is_verb_bare: "is_verb v ev \<Longrightarrow> is_bare_run ev"
  by (induction v ev rule: is_verb.induct) simp_all

lemma write_events_no_verb:
  "list_all write_event evs \<Longrightarrow> filter (is_verb v) evs = []"
  by (induction evs) (auto simp: write_event_def dest: is_verb_bare)

lemma write_events_no_ping:
  "list_all write_event evs \<Longrightarrow> \<not> list_ex is_ping evs"
  by (induction evs) (auto simp: write_event_def)

lemma list_ex_filter: "list_ex P xs \<longleftrightarrow> filter P xs \<noteq> []"
  by (induction xs) auto

lemma quiet_scope_step:
  assumes "quiet write_event s s'" and "cache_ok s" and "flags_ok s"
  shows "scope_step env s s'"
proof -
  have nv: "\<And>v. filter (is_verb v) (new_events s s') = []"
    using assms(1) by (simp add: quiet_def write_events_no_verb)
  have np: "\<not> list_ex is_ping (new_events s s')"
    using assms(1) by (simp add: quiet_def write_events_no_ping)
  have fl: "flags_ok s'"
    using assms(1,3) by (simp add: quiet_def flags_ok_def)
  show ?thesis
    using assms nv np fl
    by (simp add: scope_step_def quiet_def list_ex_filter is_begin_def is_commit_def is_rollback_def)
qed

lemma well_behaved_quietly: "quietly write_event m \<Longrightarrow> well_behaved env m"
  unfolding well_behaved_def quietly_def using quiet_scope_step by blast

lemma scope_step_trans:
  assumes "scope_step env s s1" and "scope_step env s1 s2"
  shows "scope_step env s s2"
proof -
  have e1: "extends s s1" and e2: "extends s1 s2"
    using assms by (simp_all add: scope_step_def)
  have ne: "new_events s s2 = new_events s s1 @ new_events s1 s2"
    using e1 e2 by (rule new_events_trans)
  have ex: "extends s s2" using e1 e2 by (rule extends_trans)
  show ?thesis
  proof (cases "isTransactional s")
    case False
    then show ?thesis
      using assms ex by (simp add: scope_step_def)
  next
    case True
    then have t1: "isTransactional s1" using assms(1) by (simp add: scope_step_def)
    show ?thesis
    proof (cases "isInTransaction s")
      case it: True
      then have "isInTransaction s1" using assms(1) True by (simp add: scope_step_def)
      then show ?thesis
        using assms ex ne True t1 it by (simp add: scope_step_def list_ex_filter)
    next
      case nit: False
      show ?thesis
      proof (cases "isInTransaction s1")
        case True
        then show ?thesis
          using assms ex ne \<open>isTransactional s\<close> t1 nit
          by (simp add: scope_step_def list_ex_filter)
      next
        case False
        then have "filter is_begin (new_events s s1) = []"
          using assms(1) \<open>isTransactional s\<close> nit by (auto simp: scope_step_def list_ex_filter)
        then show ?thesis
          using assms ex ne \<open>isTransactional s\<close> t1 nit False
          by (simp add: scope_step_def list_ex_filter)
      qed
    qed
  qed
qed

lemma scope_step_ok: "scope_step env s s' \<Longrightarrow> cache_ok s' \<and> flags_ok s'"
  by (simp add: scope_step_def)

lemma scope_step_refl: "cache_ok s \<Longrightarrow> flags_ok s \<Longrightarrow> scope_step env s s"
  by (simp add: scope_step_def)

lemma well_behaved_and_then:
  assumes "well_behaved env m" and "\<And>v. well_behaved env (f v)"
  shows "well_behaved env (and_then m f)"
  unfolding well_behaved_def
proof (intro allI impI)
  fix s assume ok: "cache_ok s \<and> flags_ok s"
  obtain r s1 where m: "m s = (r, s1)" by (cases "m s")
  have st1: "scope_step env s s1"
    using assms(1) ok m unfolding well_behaved_def by (metis snd_conv)
  show "scope_step env s (snd (and_then m f s))"
  proof (cases r)
    case (Inl e)
    then show ?thesis using m st1 by (simp add: and_then_def)
  next
    case (Inr v)
    have "scope_step env s1 (snd (f v s1))"
      using assms(2) scope_step_ok [OF st1] unfolding well_behaved_def by blast
    then show ?thesis using m st1 Inr by (simp add: and_then_def scope_step_trans)
  qed
qed

lemma well_behaved_return: "well_behaved env (\<lambda>s. (r, s))"
  by (simp add: well_behaved_def scope_step_refl)

section \<open>The transaction verbs\<close>

text \<open>The four ways a call of \<open>stmt\<close> can go, for a text that is not an inherited name.\<close>

lemma stmt_cases:
  assumes "cache_ok s" and "sql \<notin> set objectPrototypeKeys"
  obtains
    (unconnected) "statementCache s sql = None" "dbConnection s = None"
      "stmt env sql s = (Inl (TypeError ''Cannot read properties of undefined (reading prepare)''), s)"
  | (rejected) e where "statementCache s sql = None" "dbConnection s \<noteq> None"
      "eng_prepare env (trace s) sql = Some e"
      "stmt env sql s = (Inl e, emit (EPrepare sql) s)"
  | (compiled) "statementCache s sql = None" "dbConnection s \<noteq> None"
      "eng_prepare env (trace s) sql = None"
      "stmt env sql s = (Inr (Handle (length (trace s)) sql),
         (emit (EPrepare sql) s)\<lparr>statementCache := (statementCache s)(sql \<mapsto> Handle (length (trace s)) sql)\<rparr>)"
  | (cached) n where "statementCache s sql = Some (Handle n sql)"
      "stmt env sql s = (Inr (Handle n sql), s)"
proof (cases "statementCache s sql")
  case None
  show ?thesis
  proof (cases "dbConnection s")
    case dn: None
    then show ?thesis
      using None assms(2) unconnected by (simp add: stmt_def in_statementCache_def)
  next
    case (Some c)
    show ?thesis
    proof (cases "eng_prepare env (trace s) sql")
      case pn: None
      then show ?thesis
        using None Some assms(2) compiled by (simp add: stmt_def in_statementCache_def Let_def)
    next
      case (Some e)
      then show ?thesis
        using None \<open>dbConnection s = Some c\<close> assms(2) rejected
        by (simp add: stmt_def in_statementCache_def)
    qed
  qed
next
  case (Some v)
  then obtain n where "v = Handle n sql" using assms(1) by (auto simp: cache_ok_def)
  then show ?thesis
    using Some cached by (simp add: stmt_def in_statementCache_def statementCache_get_def)
qed

lemma cache_ok_update:
  "cache_ok s \<Longrightarrow> cache_ok (s\<lparr>statementCache := (statementCache s)(sql \<mapsto> Handle n sql)\<rparr>)"
  by (simp add: cache_ok_def)

lemma verb_run:
  fixes env :: env
  assumes "cache_ok s" and "v \<notin> set objectPrototypeKeys"
  defines "r \<equiv> and_then (stmt env v) (\<lambda>h. stmt_run env h None) s"
  shows "quiet (verb_event v) s (snd r) \<and>
         length (filter (is_verb v) (new_events s (snd r))) \<le> 1 \<and>
         (dbConnection s \<noteq> None \<and> (\<forall>tr. eng_prepare env tr v = None)
           \<longrightarrow> list_ex (is_verb v) (new_events s (snd r))) \<and>
         (\<not> isl (fst r) \<longrightarrow> list_ex (is_verb v) (new_events s (snd r))) \<and>
         cache_ok (snd r)"
  using assms(1,2)
proof (cases rule: stmt_cases [of s v env])
  case unconnected
  then show ?thesis using assms(1) by (simp add: r_def and_then_def)
next
  case (rejected e)
  then show ?thesis
    using assms(1) by (auto simp: r_def and_then_def quiet_def verb_event_def)
next
  case compiled
  let ?h = "Handle (length (trace s)) v"
  let ?s1 = "(emit (EPrepare v) s)\<lparr>statementCache := (statementCache s)(v \<mapsto> ?h)\<rparr>"
  have c1: "cache_ok ?s1" using assms(1) by (simp add: cache_ok_def)
  have r: "r = (case eng_run env (trace ?s1) ?h None of
                  Inl e \<Rightarrow> (Inl e, emit (ERun ?h None) ?s1)
                | Inr info \<Rightarrow> (Inr info, emit (ERun ?h None) ?s1))"
    using compiled by (simp add: r_def and_then_def stmt_run_def)
  have s: "snd r = emit (ERun ?h None) ?s1"
    unfolding r by (simp split: sum.splits)
  have ne: "new_events s (snd r) = [EPrepare v, ERun ?h None]"
    unfolding s by (simp add: new_events_def emit_def)
  have ex: "extends s (snd r)"
    unfolding s by (simp add: extends_def emit_def)
  have ck: "cache_ok (snd r)" unfolding s using c1 by simp
  show ?thesis
    using ne ex ck by (simp add: quiet_def verb_event_def s)
next
  case (cached n)
  let ?h = "Handle n v"
  have r: "r = (case eng_run env (trace s) ?h None of
                  Inl e \<Rightarrow> (Inl e, emit (ERun ?h None) s)
                | Inr info \<Rightarrow> (Inr info, emit (ERun ?h None) s))"
    using cached by (simp add: r_def and_then_def stmt_run_def)
  have s: "snd r = emit (ERun ?h None) s"
    unfolding r by (simp split: sum.splits)
  show ?thesis
    using assms(1) by (simp add: quiet_def verb_event_def s)
qed

section \<open>The exported functions are well behaved\<close>

text \<open>
  Every exported query and mutation function satisfies \<open>well_behaved\<close>, and so does every
  body put together from them by sequencing (\<open>well_behaved_and_then\<close>) and by nesting
  in \<open>transactional\<close> (\<open>well_behaved_transactional\<close>, below).
\<close>

lemma is_verb_unique: "is_verb v ev \<Longrightarrow> is_verb w ev \<Longrightarrow> v = w"
  by (induction v ev rule: is_verb.induct) simp_all

lemma verb_event_other: "verb_event v ev \<Longrightarrow> v \<noteq> w \<Longrightarrow> \<not> is_verb w ev"
  by (cases ev) (auto simp: verb_event_def dest: is_verb_unique)

lemma verb_event_no_ping: "verb_event v ev \<Longrightarrow> \<not> is_ping ev"
  by (cases ev) (auto simp: verb_event_def)

lemma verb_events_other:
  "list_all (verb_event v) evs \<Longrightarrow> v \<noteq> w \<Longrightarrow> filter (is_verb w) evs = []"
  by (induction evs) (auto dest: verb_event_other)

lemma verb_events_no_ping: "list_all (verb_event v) evs \<Longrightarrow> \<not> list_ex is_ping evs"
  by (induction evs) (auto dest: verb_event_no_ping)

lemma not_inherited_verbs [simp]:
  "''BEGIN'' \<notin> set objectPrototypeKeys"
  "''COMMIT'' \<notin> set objectPrototypeKeys"
  "''ROLLBACK'' \<notin> set objectPrototypeKeys"
  by (simp_all add: objectPrototypeKeys_def)

lemma well_behaved_startTransactionIfNecessary:
  "well_behaved env (startTransactionIfNecessary env)"
  unfolding well_behaved_def
proof (intro allI impI)
  fix s assume ok: "cache_ok s \<and> flags_ok s"
  show "scope_step env s (snd (startTransactionIfNecessary env s))"
  proof (cases "\<not> isTransactional s \<or> isInTransaction s")
    case True
    then show ?thesis
      using ok by (auto simp: startTransactionIfNecessary_def scope_step_refl)
  next
    case False
    let ?s0 = "s\<lparr>isInTransaction := True\<rparr>"
    let ?r = "and_then (stmt env ''BEGIN'') (\<lambda>h. stmt_run env h None) ?s0"
    have c0: "cache_ok ?s0" using ok by (simp add: cache_ok_def)
    note v = verb_run [OF c0 not_inherited_verbs(1), of env]
    have s': "snd (startTransactionIfNecessary env s) = snd ?r"
      using False
      by (simp add: startTransactionIfNecessary_def beginTransaction_def split: prod.splits sum.splits)
    have q: "quiet (verb_event ''BEGIN'') ?s0 (snd ?r)" using v by blast
    have ne: "new_events s (snd ?r) = new_events ?s0 (snd ?r)"
      by (simp add: new_events_def)
    have ex: "extends s (snd ?r)" using q by (simp add: quiet_def extends_def)
    have evs: "list_all (verb_event ''BEGIN'') (new_events s (snd ?r))"
      using q ne by (simp add: quiet_def)
    have nc: "filter is_commit (new_events s (snd ?r)) = []"
      unfolding is_commit_def by (rule verb_events_other [OF evs]) simp
    have nr: "filter is_rollback (new_events s (snd ?r)) = []"
      unfolding is_rollback_def by (rule verb_events_other [OF evs]) simp
    have np: "\<not> list_ex is_ping (new_events s (snd ?r))"
      by (rule verb_events_no_ping [OF evs])
    have cnt: "length (filter is_begin (new_events s (snd ?r))) \<le> 1"
      using v ne by (simp add: is_begin_def)
    have acc: "dbConnection s \<noteq> None \<and> accepts_begin env
                 \<longrightarrow> list_ex is_begin (new_events s (snd ?r))"
      using v ne by (simp add: is_begin_def accepts_begin_def)
    have fr: "dbConnection (snd ?r) = dbConnection s" "isTransactional (snd ?r) = isTransactional s"
      "isInTransaction (snd ?r)" "cache_ok (snd ?r)"
      using q c0 by (simp_all add: quiet_def)
    show ?thesis
      unfolding s'
      using False ex nc nr np cnt acc fr
      by (simp add: scope_step_def list_ex_filter flags_ok_def)
  qed
qed

lemma well_behaved_wrap:
  "quietly write_event func \<Longrightarrow> well_behaved env (wrap env func query)"
  by (rule well_behaved_quietly) (rule quietly_wrap; simp)

lemma well_behaved_execute: "well_behaved env (execute env q ps)"
  unfolding execute_def
  by (intro well_behaved_and_then well_behaved_startTransactionIfNecessary well_behaved_wrap
            quietly_and_then quietly_stmt quietly_stmt_run) simp_all

lemma well_behaved_executeScript: "well_behaved env (executeScript env q)"
  unfolding executeScript_def
  by (intro well_behaved_and_then well_behaved_startTransactionIfNecessary well_behaved_wrap
            quietly_return)

lemma well_behaved_read: "quietly read_event m \<Longrightarrow> well_behaved env m"
  by (rule well_behaved_quietly) (erule quietly_mono, rule read_write_event)

lemma well_behaved_executeMany: "well_behaved env (executeMany env q ps)"
  unfolding executeMany_def
  by (intro well_behaved_and_then well_behaved_startTransactionIfNecessary well_behaved_return
            well_behaved_read quietly_getManyRows)

lemma snd_insert_rec:
  "rec \<noteq> [] \<Longrightarrow> snd (insert_rec env t rec rp s)
     = snd (execute env (insert_query t (map fst rec) rp) (PArr (map snd rec)) s)"
  by (simp add: insert_rec_def split: prod.splits sum.splits)

lemma snd_upsert:
  "rec \<noteq> [] \<Longrightarrow> snd (snd (upsert env t pk rec s))
     = snd (execute env (upsert_query t pk (map fst rec)) (PObj (normalize_booleans rec)) s)"
  by (simp add: upsert_def Let_def split: prod.splits sum.splits)

lemma well_behaved_insert_rec: "well_behaved env (insert_rec env t rec rp)"
proof (cases "rec = []")
  case True
  have "quietly write_event (insert_rec env t rec rp)"
    using True by (simp add: quietly_def insert_rec_def log_error_def quiet_emit)
  then show ?thesis by (rule well_behaved_quietly)
next
  case False
  show ?thesis
    using well_behaved_execute [of env "insert_query t (map fst rec) rp" "PArr (map snd rec)"]
    by (simp add: well_behaved_def snd_insert_rec [OF False])
qed

lemma well_behaved_replace_rec: "well_behaved env (replace_rec env t rec)"
  by (simp add: replace_rec_def well_behaved_insert_rec)

lemma well_behaved_upsert:
  "well_behaved env (\<lambda>s. (fst (upsert env t pk rec s), snd (snd (upsert env t pk rec s))))"
proof (cases "rec = []")
  case True
  have "quietly write_event (\<lambda>s. (fst (upsert env t pk rec s), snd (snd (upsert env t pk rec s))))"
    using True by (simp add: quietly_def upsert_def log_error_def quiet_emit)
  then show ?thesis by (rule well_behaved_quietly)
next
  case False
  show ?thesis
    using well_behaved_execute [of env "upsert_query t pk (map fst rec)" "PObj (normalize_booleans rec)"]
    by (simp add: well_behaved_def snd_upsert [OF False])
qed

lemma well_behaved_executeWithoutTransaction:
  "well_behaved env (executeWithoutTransaction env q ps)"
  by (rule well_behaved_quietly)
     (auto simp: quietly_def executeWithoutTransaction_def quiet_emit split: option.splits)

section \<open>What the owning call adds after its body\<close>

lemma tail_step_refl: "cache_ok s \<Longrightarrow> tail_step 0 0 0 s s"
  by (simp add: tail_step_def)

lemma tail_step_trans:
  assumes "tail_step a b c s s1" and "tail_step a' b' c' s1 s2"
  shows "tail_step (a + a') (b + b') (c + c') s s2"
proof -
  have e1: "extends s s1" and e2: "extends s1 s2"
    using assms by (simp_all add: tail_step_def quiet_def)
  have ne: "new_events s s2 = new_events s s1 @ new_events s1 s2"
    using e1 e2 by (rule new_events_trans)
  have q: "quiet tail_event s s2"
    using assms quiet_trans by (auto simp: tail_step_def)
  show ?thesis
    using assms q by (simp add: tail_step_def ne)
qed

lemma tail_step_mono:
  "tail_step a b c s s' \<Longrightarrow> a \<le> a' \<Longrightarrow> b \<le> b' \<Longrightarrow> c \<le> c' \<Longrightarrow> tail_step a' b' c' s s'"
  by (simp add: tail_step_def)

lemma tail_step_commit:
  assumes "cache_ok s"
  shows "tail_step 1 0 0 s (snd (commit env s))"
proof -
  let ?s' = "snd (commit env s)"
  note v = verb_run [OF assms not_inherited_verbs(2), of env, folded commit_def]
  have q: "quiet (verb_event ''COMMIT'') s ?s'" using v by blast
  have evs: "list_all (verb_event ''COMMIT'') (new_events s ?s')" using q by (simp add: quiet_def)
  have "filter is_begin (new_events s ?s') = []"
    unfolding is_begin_def by (rule verb_events_other [OF evs]) simp
  moreover have "filter is_rollback (new_events s ?s') = []"
    unfolding is_rollback_def by (rule verb_events_other [OF evs]) simp
  moreover have "filter is_ping (new_events s ?s') = []"
    using verb_events_no_ping [OF evs] by (simp add: list_ex_filter)
  moreover have "quiet tail_event s ?s'"
    using q by (rule quiet_mono) (simp add: tail_event_def)
  ultimately show ?thesis
    using v by (simp add: tail_step_def is_commit_def)
qed

lemma tail_step_rollback:
  assumes "cache_ok s"
  shows "tail_step 0 1 0 s (snd (rollback env s))"
proof -
  let ?s' = "snd (rollback env s)"
  note v = verb_run [OF assms not_inherited_verbs(3), of env, folded rollback_def]
  have q: "quiet (verb_event ''ROLLBACK'') s ?s'" using v by blast
  have evs: "list_all (verb_event ''ROLLBACK'') (new_events s ?s')" using q by (simp add: quiet_def)
  have "filter is_begin (new_events s ?s') = []"
    unfolding is_begin_def by (rule verb_events_other [OF evs]) simp
  moreover have "filter is_commit (new_events s ?s') = []"
    unfolding is_commit_def by (rule verb_events_other [OF evs]) simp
  moreover have "filter is_ping (new_events s ?s') = []"
    using verb_events_no_ping [OF evs] by (simp add: list_ex_filter)
  moreover have "quiet tail_event s ?s'"
    using q by (rule quiet_mono) (simp add: tail_event_def)
  ultimately show ?thesis
    using v by (simp add: tail_step_def is_rollback_def)
qed

lemma tail_step_ping:
  assumes "cache_ok s"
  shows "tail_step 0 0 1 s (snd (sendPingToAllClients env s))"
  using assms
  by (simp add: tail_step_def sendPingToAllClients_def quiet_def tail_event_def
                is_begin_def is_commit_def is_rollback_def split: option.splits)

lemma snd_catch:
  "snd (transactional_catch env e s :: 'a res) = (if isInTransaction s then snd (rollback env s) else s)"
  by (simp add: transactional_catch_def split: prod.splits sum.splits)

lemma tail_step_catch:
  assumes "cache_ok s"
  shows "tail_step 0 1 0 s (if isInTransaction s then snd (rollback env s) else s)"
  using tail_step_rollback [OF assms, of env] tail_step_refl [OF assms]
  by (auto elim: tail_step_mono)

lemma tail_step_try:
  assumes "func s0 = (r1, s1)" and "cache_ok s1"
  shows "tail_step 1 1 1 s1 (snd (transactional_try env func s0))"
proof (cases r1)
  case (Inl e)
  then have "snd (transactional_try env func s0) = (if isInTransaction s1 then snd (rollback env s1) else s1)"
    using assms(1) by (simp add: transactional_try_def snd_catch)
  then show ?thesis
    using tail_step_catch [OF assms(2), of env] by (auto elim: tail_step_mono)
next
  case (Inr ret)
  show ?thesis
  proof (cases "isInTransaction s1")
    case False
    then have "snd (transactional_try env func s0) = s1"
      using assms(1) Inr by (simp add: transactional_try_def)
    then show ?thesis using tail_step_refl [OF assms(2)] by (auto elim: tail_step_mono)
  next
    case True
    obtain rc s2 where c: "commit env s1 = (rc, s2)" by (cases "commit env s1")
    have t1: "tail_step 1 0 0 s1 s2" using tail_step_commit [OF assms(2), of env] c by simp
    then have c2: "cache_ok s2" by (simp add: tail_step_def)
    show ?thesis
    proof (cases rc)
      case (Inl e)
      then have "snd (transactional_try env func s0) = (if isInTransaction s2 then snd (rollback env s2) else s2)"
        using assms(1) Inr True c by (simp add: transactional_try_def snd_catch)
      then show ?thesis
        using tail_step_trans [OF t1 tail_step_catch [OF c2, of env]] by (auto elim: tail_step_mono)
    next
      case info: (Inr info)
      obtain rp s3 where p: "sendPingToAllClients env s2 = (rp, s3)"
        by (cases "sendPingToAllClients env s2")
      have t2: "tail_step 0 0 1 s2 s3" using tail_step_ping [OF c2, of env] p by simp
      then have c3: "cache_ok s3" by (simp add: tail_step_def)
      have t12: "tail_step 1 0 1 s1 s3" using tail_step_trans [OF t1 t2] by simp
      show ?thesis
      proof (cases rp)
        case (Inl e)
        then have "snd (transactional_try env func s0) = (if isInTransaction s3 then snd (rollback env s3) else s3)"
          using assms(1) Inr True c info p by (simp add: transactional_try_def snd_catch)
        then show ?thesis
          using tail_step_trans [OF t12 tail_step_catch [OF c3, of env]] by simp
      next
        case u: (Inr u)
        then have "snd (transactional_try env func s0) = s3"
          using assms(1) Inr True c info p by (simp add: transactional_try_def)
        then show ?thesis using t12 by (auto elim: tail_step_mono)
      qed
    qed
  qed
qed

section \<open>Outermost and nested calls\<close>

lemma transactional_inline: "isTransactional s \<Longrightarrow> transactional env func s = func s"
  by (simp add: transactional_def)

lemma transactional_nested_eq:
  "transactional env (transactional env inner) s = transactional env inner s"
proof (cases "isTransactional s")
  case True
  then show ?thesis by (simp add: transactional_def)
next
  case False
  have "transactional_try env (transactional env inner) (s\<lparr>isTransactional := True\<rparr>)
        = transactional_try env inner (s\<lparr>isTransactional := True\<rparr>)"
    by (simp add: transactional_try_def transactional_inline)
  then show ?thesis
    using False by (simp add: transactional_def)
qed

lemma finally_fields [simp]:
  "trace (transactional_finally s) = trace s"
  "dbConnection (transactional_finally s) = dbConnection s"
  "statementCache (transactional_finally s) = statementCache s"
  "\<not> isTransactional (transactional_finally s)"
  "\<not> isInTransaction (transactional_finally s)"
  by (simp_all add: transactional_finally_def Let_def)

lemma snd_transactional_idle:
  "\<not> isTransactional s \<Longrightarrow>
   snd (transactional env func s)
     = transactional_finally (snd (transactional_try env func (s\<lparr>isTransactional := True\<rparr>)))"
  by (simp add: transactional_def split: prod.splits)

lemma fst_transactional_idle:
  "\<not> isTransactional s \<Longrightarrow>
   fst (transactional env func s) = fst (transactional_try env func (s\<lparr>isTransactional := True\<rparr>))"
  by (simp add: transactional_def split: prod.splits)

lemma transactional_outer:
  fixes func :: "'a action"
  assumes wb: "well_behaved env func" and ok: "cache_ok s" "flags_ok s"
    and idle: "\<not> isTransactional s"
  defines "s1 \<equiv> snd (func (s\<lparr>isTransactional := True\<rparr>))"
    and "s' \<equiv> snd (transactional env func s)"
  shows "extends s s' \<and> dbConnection s' = dbConnection s \<and> cache_ok s' \<and>
         \<not> isTransactional s' \<and> \<not> isInTransaction s' \<and>
         length (filter is_begin (new_events s s')) \<le> 1 \<and>
         length (filter is_commit (new_events s s')) \<le> 1 \<and>
         length (filter is_rollback (new_events s s')) \<le> 1 \<and>
         length (filter is_ping (new_events s s')) \<le> 1 \<and>
         (dbConnection s \<noteq> None \<and> accepts_begin env \<and> isInTransaction s1
            \<longrightarrow> length (filter is_begin (new_events s s')) = 1) \<and>
         (\<not> isInTransaction s1 \<longrightarrow> new_events s s' = new_events s s1 \<and>
            filter is_begin (new_events s s') = [])"
proof -
  let ?s0 = "s\<lparr>isTransactional := True\<rparr>"
  let ?st = "snd (transactional_try env func ?s0)"
  have ni: "\<not> isInTransaction s" using ok(2) idle by (simp add: flags_ok_def)
  have ok0: "cache_ok ?s0 \<and> flags_ok ?s0"
    using ok by (simp add: cache_ok_def flags_ok_def)
  have body: "scope_step env ?s0 s1"
    using wb ok0 unfolding well_behaved_def s1_def by blast
  obtain r1 where f: "func ?s0 = (r1, s1)" unfolding s1_def by (cases "func ?s0") simp
  have c1: "cache_ok s1" using body by (simp add: scope_step_def)
  have tail: "tail_step 1 1 1 s1 ?st"
    using tail_step_try [of func ?s0 r1 s1 env] f c1 by simp
  have s': "s' = transactional_finally ?st"
    unfolding s'_def by (rule snd_transactional_idle [OF idle])
  have e01: "extends ?s0 s1" using body by (simp add: scope_step_def)
  have e1t: "extends s1 ?st" using tail by (simp add: tail_step_def quiet_def)
  have e0t: "extends ?s0 ?st" using e01 e1t by (rule extends_trans)
  have ne0: "new_events ?s0 ?st = new_events ?s0 s1 @ new_events s1 ?st"
    using e01 e1t by (rule new_events_trans)
  have ne: "new_events s s' = new_events ?s0 s1 @ new_events s1 ?st"
    using ne0 by (simp add: s' new_events_def)
  have nes1: "new_events s s1 = new_events ?s0 s1" by (simp add: new_events_def)
  have ex: "extends s s'" using e0t by (simp add: s' extends_def)
  have db: "dbConnection s' = dbConnection s"
    using body tail by (simp add: s' scope_step_def tail_step_def quiet_def)
  have ck: "cache_ok s'" using tail by (simp add: s' tail_step_def cache_ok_def)
  have b0: "length (filter is_begin (new_events ?s0 s1)) \<le> 1"
       "filter is_commit (new_events ?s0 s1) = []"
       "filter is_rollback (new_events ?s0 s1) = []"
       "filter is_ping (new_events ?s0 s1) = []"
       "dbConnection s \<noteq> None \<and> accepts_begin env \<and> isInTransaction s1
          \<longrightarrow> filter is_begin (new_events ?s0 s1) \<noteq> []"
       "\<not> isInTransaction s1 \<longrightarrow> filter is_begin (new_events ?s0 s1) = []"
    using body ni by (auto simp: scope_step_def list_ex_filter)
  have t0: "filter is_begin (new_events s1 ?st) = []"
       "length (filter is_commit (new_events s1 ?st)) \<le> 1"
       "length (filter is_rollback (new_events s1 ?st)) \<le> 1"
       "length (filter is_ping (new_events s1 ?st)) \<le> 1"
    using tail by (simp_all add: tail_step_def)
  have one: "\<And>xs :: event list. length xs \<le> 1 \<Longrightarrow> xs \<noteq> [] \<Longrightarrow> length xs = 1"
    by (case_tac xs) auto
  have notx: "\<not> isInTransaction s1 \<longrightarrow> ?st = s1"
    using f by (cases r1) (simp_all add: transactional_try_def transactional_catch_def)
  have last: "\<not> isInTransaction s1 \<longrightarrow> new_events s s' = new_events s s1"
    using notx ne nes1 by simp
  have counts:
    "length (filter is_begin (new_events s s')) \<le> 1"
    "length (filter is_commit (new_events s s')) \<le> 1"
    "length (filter is_rollback (new_events s s')) \<le> 1"
    "length (filter is_ping (new_events s s')) \<le> 1"
    "dbConnection s \<noteq> None \<and> accepts_begin env \<and> isInTransaction s1
       \<longrightarrow> length (filter is_begin (new_events s s')) = 1"
    "\<not> isInTransaction s1 \<longrightarrow> filter is_begin (new_events s s') = []"
    unfolding ne using b0 t0 one [OF b0(1)] by simp_all
  have flags: "\<not> isTransactional s'" "\<not> isInTransaction s'"
    by (simp_all add: s')
  show ?thesis
    using ex db ck counts flags last by blast
qed

lemma well_behaved_transactional:
  assumes "well_behaved env func"
  shows "well_behaved env (transactional env func)"
  unfolding well_behaved_def
proof (intro allI impI)
  fix s assume ok: "cache_ok s \<and> flags_ok s"
  show "scope_step env s (snd (transactional env func s))"
  proof (cases "isTransactional s")
    case True
    then show ?thesis
      using assms ok by (simp add: transactional_inline well_behaved_def)
  next
    case False
    have "cache_ok s" and "flags_ok s" using ok by simp_all
    note o = transactional_outer [OF assms this False]
    show ?thesis
      using o ok False by (simp add: scope_step_def flags_ok_def)
  qed
qed

section \<open>Events of the writes\<close>

lemma adds_only_refl [simp]: "adds_only P s s"
  by (simp add: adds_only_def)

lemma adds_only_trans:
  assumes "adds_only P s s1" and "adds_only P s1 s2"
  shows "adds_only P s s2"
proof -
  have e1: "extends s s1" and e2: "extends s1 s2"
    using assms by (simp_all add: adds_only_def)
  have "new_events s s2 = new_events s s1 @ new_events s1 s2"
    using e1 e2 by (rule new_events_trans)
  moreover have "extends s s2" using e1 e2 by (rule extends_trans)
  ultimately show ?thesis
    using assms by (simp add: adds_only_def)
qed

lemma quiet_adds_only: "quiet P s s' \<Longrightarrow> adds_only P s s'"
  by (simp add: quiet_def adds_only_def)

lemma adds_only_emit: "P ev \<Longrightarrow> adds_only P s (emit ev s)"
  by (simp add: adds_only_def)

lemma adds_only_same_trace: "trace s0 = trace s \<Longrightarrow> adds_only P s0 s' \<Longrightarrow> adds_only P s s'"
  by (simp add: adds_only_def extends_def new_events_def)

lemma quietly_verb:
  assumes "P (EPrepare v)" and "\<And>h. P (ERun h None)"
  shows "quietly P (and_then (stmt env v) (\<lambda>h. stmt_run env h None))"
  by (intro quietly_and_then quietly_stmt quietly_stmt_run assms)

lemma adds_only_startTransactionIfNecessary:
  assumes "P (EPrepare ''BEGIN'')" and "\<And>h. P (ERun h None)"
  shows "adds_only P s (snd (startTransactionIfNecessary env s))"
proof (cases "\<not> isTransactional s \<or> isInTransaction s")
  case True
  then show ?thesis by (auto simp: startTransactionIfNecessary_def)
next
  case False
  let ?s0 = "s\<lparr>isInTransaction := True\<rparr>"
  have "quiet P ?s0 (snd (beginTransaction env ?s0))"
    using quietly_verb [of P "''BEGIN''" env] assms
    by (simp add: quietly_def beginTransaction_def)
  then have "adds_only P s (snd (beginTransaction env ?s0))"
    by (intro adds_only_same_trace [of ?s0 s] quiet_adds_only) simp_all
  moreover have "snd (startTransactionIfNecessary env s) = snd (beginTransaction env ?s0)"
    using False by (simp add: startTransactionIfNecessary_def split: prod.splits sum.splits)
  ultimately show ?thesis by simp
qed

lemma adds_only_and_then:
  assumes "\<And>s. adds_only P s (snd (m s))" and "\<And>v s. adds_only P s (snd (f v s))"
  shows "adds_only P s (snd (and_then m f s))"
proof -
  obtain r s1 where m: "m s = (r, s1)" by (cases "m s")
  have a1: "adds_only P s s1" using assms(1) [of s] m by simp
  show ?thesis
  proof (cases r)
    case (Inl e)
    then show ?thesis using m a1 by (simp add: and_then_def)
  next
    case (Inr v)
    then show ?thesis
      using m a1 assms(2) [of s1 v] by (simp add: and_then_def adds_only_trans)
  qed
qed

lemma adds_only_quietly: "quietly P m \<Longrightarrow> adds_only P s (snd (m s))"
  by (simp add: quietly_def quiet_adds_only)

lemma adds_only_execute:
  assumes "P (EPrepare ''BEGIN'')" and "\<And>h. P (ERun h None)"
    and "P (EPrepare q)" and "\<And>h. P (ERun h (Some ps))"
    and "\<And>m. P (ELogError m)" and "\<And>m. P (ELogInfo m)"
  shows "adds_only P s (snd (execute env q ps s))"
  unfolding execute_def
  by (intro adds_only_and_then adds_only_startTransactionIfNecessary adds_only_quietly
            quietly_wrap quietly_and_then quietly_stmt quietly_stmt_run assms)

lemma adds_only_executeScript:
  assumes "P (EPrepare ''BEGIN'')" and "\<And>h. P (ERun h None)"
    and "\<And>m. P (ELogError m)" and "\<And>m. P (ELogInfo m)"
  shows "adds_only P s (snd (executeScript env q s))"
  unfolding executeScript_def
  by (intro adds_only_and_then adds_only_startTransactionIfNecessary adds_only_quietly
            quietly_wrap quietly_return assms)

section \<open>Empty records\<close>

text \<open>
  Claim C7. For every table name, \<open>insert(table, {})\<close> and \<open>upsert(table, pk, {})\<close>
  make no engine call at all, return no identifier (\<open>undefined\<close>), and produce
  exactly one error-log entry; no exception is raised. The result state differs from the
  state before the call by that one log entry only.
\<close>

theorem empty_record_is_skipped:
  "insert_rec env tableName [] replace s =
     (Inr Undefined,
      s\<lparr>trace := trace s @
         [ELogError (Msg (''Can'' @ [CHR 0x27] @ ''t insert empty object into table '' @ tableName))]\<rparr>)
   \<and> upsert env tableName primaryKey [] s =
     (Inr (), [],
      s\<lparr>trace := trace s @
         [ELogError (Msg (''Can'' @ [CHR 0x27] @ ''t upsert empty object into table '' @ tableName))]\<rparr>)
   \<and> filter is_engine_call (new_events s (snd (insert_rec env tableName [] replace s))) = []
   \<and> filter is_engine_call (new_events s (snd (snd (upsert env tableName primaryKey [] s)))) = []"
  by (simp add: insert_rec_def upsert_def log_error_def emit_def new_events_def)

text \<open>The same at the freshly loaded module, for a table \<open>notes\<close>.\<close>

theorem empty_record_is_skipped_witness:
  "insert_rec accepting_env ''notes'' [] False initial_state =
     (Inr Undefined,
      initial_state\<lparr>trace :=
         [ELogError (Msg (''Can'' @ [CHR 0x27] @ ''t insert empty object into table notes''))]\<rparr>)
   \<and> upsert accepting_env ''notes'' ''noteId'' [] initial_state =
     (Inr (), [],
      initial_state\<lparr>trace :=
         [ELogError (Msg (''Can'' @ [CHR 0x27] @ ''t upsert empty object into table notes''))]\<rparr>)"
proof -
  have tr: "trace initial_state = []" by (simp add: initial_state_def)
  show ?thesis
    using empty_record_is_skipped [of accepting_env "''notes''" False initial_state "''noteId''"]
    by (simp add: tr)
qed

section \<open>Boolean fields in upsert\<close>

lemma normalize_booleans_keys: "map fst (normalize_booleans rec) = map fst rec"
  by (induction rec) (auto simp: normalize_booleans_def)

lemma normalize_booleans_nth:
  "i < length rec \<Longrightarrow>
   snd (normalize_booleans rec ! i)
     = (case snd (rec ! i) of Bool b \<Rightarrow> Num (if b then 1 else 0) | v \<Rightarrow> v)"
  by (auto simp: normalize_booleans_def split: prod.splits jsval.splits)

lemma fst_snd_upsert: "rec \<noteq> [] \<Longrightarrow> fst (snd (upsert env t pk rec s)) = normalize_booleans rec"
  by (simp add: upsert_def Let_def split: prod.splits sum.splits)

text \<open>
  Claim C9. For every non-empty record, \<open>upsert\<close> replaces the boolean values of the
  caller's own record object by 1 and 0 (the object the caller holds after the call has
  the same keys in the same order, \<open>true\<close> replaced by 1, \<open>false\<close> by 0, every
  other value unchanged), and it does so before binding: every statement execution with
  bound parameters that the call makes binds that normalized object. This holds whether
  the execution succeeds or raises.
\<close>

theorem upsert_normalizes_in_place:
  assumes "rec \<noteq> []"
  shows "map fst (fst (snd (upsert env tableName primaryKey rec s))) = map fst rec
       \<and> (\<forall>i < length rec.
            snd (fst (snd (upsert env tableName primaryKey rec s)) ! i)
              = (case snd (rec ! i) of Bool b \<Rightarrow> Num (if b then 1 else 0) | v \<Rightarrow> v))
       \<and> extends s (snd (snd (upsert env tableName primaryKey rec s)))
       \<and> list_all (\<lambda>ev. \<forall>h ps. ev = ERun h (Some ps)
                       \<longrightarrow> ps = PObj (fst (snd (upsert env tableName primaryKey rec s))))
            (new_events s (snd (snd (upsert env tableName primaryKey rec s))))"
proof -
  let ?rec' = "normalize_booleans rec"
  let ?P = "\<lambda>ev. \<forall>h ps. ev = ERun h (Some ps) \<longrightarrow> ps = PObj ?rec'"
  have "adds_only ?P s
          (snd (execute env (upsert_query tableName primaryKey (map fst rec)) (PObj ?rec') s))"
    by (rule adds_only_execute) simp_all
  then show ?thesis
    using assms
    by (simp add: fst_snd_upsert snd_upsert normalize_booleans_keys normalize_booleans_nth
                  adds_only_def)
qed

text \<open>The same for a record with one \<open>true\<close> and one \<open>false\<close> field.\<close>

theorem upsert_normalizes_in_place_witness:
  "sample_record \<noteq> []
   \<and> map fst (fst (snd (upsert accepting_env ''notes'' ''noteId'' sample_record connected_state)))
        = [''noteId'', ''isProtected'', ''isDeleted'']
   \<and> snd (fst (snd (upsert accepting_env ''notes'' ''noteId'' sample_record connected_state)) ! 0)
        = Str ''n1''
   \<and> snd (fst (snd (upsert accepting_env ''notes'' ''noteId'' sample_record connected_state)) ! 1)
        = Num 1
   \<and> snd (fst (snd (upsert accepting_env ''notes'' ''noteId'' sample_record connected_state)) ! 2)
        = Num 0"
proof -
  let ?rec' = "fst (snd (upsert accepting_env ''notes'' ''noteId'' sample_record connected_state))"
  have ne: "sample_record \<noteq> []" by (simp add: sample_record_def)
  note u = upsert_normalizes_in_place [OF ne, of accepting_env "''notes''" "''noteId''" connected_state]
  have keys: "map fst ?rec' = [''noteId'', ''isProtected'', ''isDeleted'']"
    using u by (simp add: sample_record_def)
  have vals: "\<And>i. i < 3 \<Longrightarrow> snd (?rec' ! i)
      = (case snd (sample_record ! i) of Bool b \<Rightarrow> Num (if b then 1 else 0) | v \<Rightarrow> v)"
    using u by (simp add: sample_record_def)
  have "snd (?rec' ! 0) = Str ''n1''" using vals [of 0] by (simp add: sample_record_def)
  moreover have "snd (?rec' ! 1) = Num 1" using vals [of 1] by (simp add: sample_record_def)
  moreover have "snd (?rec' ! 2) = Num 0" using vals [of 2] by (simp add: sample_record_def)
  ultimately show ?thesis using ne keys by simp
qed

section \<open>executeScript\<close>

lemma wrap_raising:
  "wrap env (\<lambda>s. (Inl e, s)) query s =
     (if dbConnection s = None then (Inl (Error ''DB connection not initialized yet''), s)
      else (Inl (WrappedError e), emit (ELogError (QueryError e)) s))"
  by (simp add: wrap_def log_error_def)

text \<open>
  Claim C10. For every query text and every state, \<open>executeScript\<close> raises and never
  executes the script: besides the lazy BEGIN (the compilation of \<open>BEGIN\<close> and a
  \<open>run()\<close> without arguments) the only thing it adds to the trace is the error-log
  entry for the \<open>TypeError\<close> of \<open>stmt.run\<close>. With a connection and no lazy BEGIN
  pending, the error raised is the wrapped \<open>TypeError\<close>.
\<close>

theorem executeScript_always_raises:
  "isl (fst (executeScript env query s))
   \<and> extends s (snd (executeScript env query s))
   \<and> list_all (\<lambda>ev. ev = EPrepare ''BEGIN'' \<or> is_bare_run ev
                  \<or> ev = ELogError (QueryError (TypeError ''stmt.run is not a function'')))
        (new_events s (snd (executeScript env query s)))
   \<and> (dbConnection s \<noteq> None \<and> \<not> (isTransactional s \<and> \<not> isInTransaction s)
        \<longrightarrow> executeScript env query s
              = (Inl (WrappedError (TypeError ''stmt.run is not a function'')),
                 s\<lparr>trace := trace s @
                    [ELogError (QueryError (TypeError ''stmt.run is not a function''))]\<rparr>))"
proof -
  let ?e = "TypeError ''stmt.run is not a function''"
  let ?P = "\<lambda>ev. ev = EPrepare ''BEGIN'' \<or> is_bare_run ev \<or> ev = ELogError (QueryError ?e)"
  obtain r1 s1 where st: "startTransactionIfNecessary env s = (r1, s1)"
    by (cases "startTransactionIfNecessary env s")
  have a1: "adds_only ?P s s1"
    using adds_only_startTransactionIfNecessary [of ?P s env] st by simp
  have a2: "adds_only ?P s1 (snd (wrap env (\<lambda>s. (Inl ?e, s)) query s1))"
    by (simp add: wrap_raising adds_only_emit)
  have a: "adds_only ?P s (snd (executeScript env query s))"
    using st a1 adds_only_trans [OF a1 a2]
    by (cases r1) (simp_all add: executeScript_def and_then_def)
  have raises: "isl (fst (executeScript env query s))"
    using st by (cases r1) (simp_all add: executeScript_def and_then_def wrap_raising)
  have direct: "dbConnection s \<noteq> None \<and> \<not> (isTransactional s \<and> \<not> isInTransaction s)
        \<longrightarrow> executeScript env query s
              = (Inl (WrappedError ?e), s\<lparr>trace := trace s @ [ELogError (QueryError ?e)]\<rparr>)"
    by (auto simp: executeScript_def and_then_def startTransactionIfNecessary_def wrap_raising emit_def)
  show ?thesis
    using a raises direct by (simp add: adds_only_def)
qed

text \<open>The same for a script of two statements on a connected module.\<close>

theorem executeScript_always_raises_witness:
  "executeScript accepting_env ''CREATE TABLE t (x); CREATE TABLE u (y);'' connected_state
     = (Inl (WrappedError (TypeError ''stmt.run is not a function'')),
        connected_state\<lparr>trace :=
           [ELogError (QueryError (TypeError ''stmt.run is not a function''))]\<rparr>)"
proof -
  have pre: "dbConnection connected_state \<noteq> None
      \<and> \<not> (isTransactional connected_state \<and> \<not> isInTransaction connected_state)"
    by (simp add: connected_state_def initial_state_def setDbConnection_def)
  have tr: "trace connected_state = []"
    by (simp add: connected_state_def initial_state_def setDbConnection_def)
  show ?thesis
    using executeScript_always_raises
            [of accepting_env "''CREATE TABLE t (x); CREATE TABLE u (y);''" connected_state] pre tr
    by simp
qed

section \<open>The statement cache is a memo table\<close>

lemma stmt_cached:
  "in_statementCache s sql \<Longrightarrow> stmt env sql s = (Inr (statementCache_get s sql), s)"
  by (simp add: stmt_def)

lemma stmt_returns:
  assumes "stmt env sql s = (Inr h, s1)"
  shows "in_statementCache s1 sql \<and> statementCache_get s1 sql = h"
  using assms
  by (auto simp: stmt_def in_statementCache_def statementCache_get_def Let_def
           split: if_splits option.splits)

lemma stmt_adds_at_most_one:
  "extends s (snd (stmt env sql s)) \<and> length (new_events s (snd (stmt env sql s))) \<le> 1"
  by (auto simp: stmt_def Let_def extends_def new_events_def emit_def split: option.splits)

lemma stmt_keeps_entries:
  "statementCache s q = Some v \<Longrightarrow> statementCache (snd (stmt env sql s)) q = Some v"
  by (auto simp: stmt_def Let_def in_statementCache_def split: option.splits)

lemma stmt_keeps_cached:
  assumes "in_statementCache s sql"
  shows "in_statementCache (snd (stmt env q s)) sql
       \<and> statementCache_get (snd (stmt env q s)) sql = statementCache_get s sql
       \<and> extends s (snd (stmt env q s))
       \<and> filter (\<lambda>ev. ev = EPrepare sql) (new_events s (snd (stmt env q s))) = []"
proof (cases "in_statementCache s q")
  case True
  then show ?thesis using assms by (simp add: stmt_cached)
next
  case False
  then have neq: "q \<noteq> sql" using assms by auto
  show ?thesis
    using False assms neq
    by (auto simp: stmt_def Let_def in_statementCache_def statementCache_get_def
                   extends_def new_events_def emit_def
             split: option.splits)
qed

lemma stmts_keep_cached:
  assumes "in_statementCache s sql"
  shows "in_statementCache (stmts env qs s) sql
       \<and> statementCache_get (stmts env qs s) sql = statementCache_get s sql
       \<and> extends s (stmts env qs s)
       \<and> filter (\<lambda>ev. ev = EPrepare sql) (new_events s (stmts env qs s)) = []"
  using assms
proof (induction qs arbitrary: s)
  case Nil
  then show ?case by simp
next
  case (Cons q qs)
  let ?s1 = "snd (stmt env q s)"
  note a = stmt_keeps_cached [OF Cons.prems, of env q]
  have b: "in_statementCache ?s1 sql" using a by blast
  note c = Cons.IH [OF b]
  have ne: "new_events s (stmts env qs ?s1) = new_events s ?s1 @ new_events ?s1 (stmts env qs ?s1)"
    using a c by (intro new_events_trans) blast+
  have ex: "extends s (stmts env qs ?s1)"
    using a c extends_trans by blast
  show ?case
    using a c ex by (simp add: ne)
qed

lemma stmts_keep_entries:
  "statementCache s q = Some v \<Longrightarrow> statementCache (stmts env qs s) q = Some v"
  by (induction qs arbitrary: s) (simp_all add: stmt_keeps_entries)

lemma stmt_raises:
  assumes "stmt env sql s = (Inl e, s1)"
  shows "statementCache s1 = statementCache s \<and> dbConnection s1 = dbConnection s
       \<and> \<not> in_statementCache s sql
       \<and> (dbConnection s \<noteq> None \<longrightarrow> s1 = emit (EPrepare sql) s)"
  using assms
  by (auto simp: stmt_def Let_def split: if_splits option.splits)

lemma stmt_compiles_when_missing:
  assumes "\<not> in_statementCache s sql" and "dbConnection s \<noteq> None"
  shows "new_events s (snd (stmt env sql s)) = [EPrepare sql]"
  using assms
  by (auto simp: stmt_def Let_def new_events_def emit_def split: option.splits)

text \<open>
  Claim C5, as amended. The statement cache is idempotent once a compilation has
  succeeded: for every query text, once a call of \<open>stmt\<close> with that text has returned a
  value, every later call with the same text, whatever other texts were prepared in
  between, returns the same value and leaves the module as it is (the engine's compile
  step is not invoked again); from the first of these calls on, the engine compiles that
  text at most once; and no stored statement is ever removed or replaced. A call whose
  compilation raises stores nothing: on a connected module it has invoked the compile
  step once, and the next call with the same text invokes it again.
\<close>

theorem stmt_is_idempotent:
  "(\<forall>h s1. stmt env sql s = (Inr h, s1) \<longrightarrow>
       stmt env sql (stmts env qs s1) = (Inr h, stmts env qs s1)
     \<and> length (filter (\<lambda>ev. ev = EPrepare sql) (new_events s (stmts env qs s1))) \<le> 1
     \<and> (\<forall>q v. statementCache s q = Some v \<longrightarrow> statementCache (stmts env qs s1) q = Some v))
   \<and> (\<forall>e s1. stmt env sql s = (Inl e, s1) \<longrightarrow>
       statementCache s1 = statementCache s
     \<and> (dbConnection s \<noteq> None \<longrightarrow>
           new_events s s1 = [EPrepare sql]
         \<and> new_events s1 (snd (stmt env sql s1)) = [EPrepare sql]))"
proof -
  have returned:
    "stmt env sql (stmts env qs s1) = (Inr h, stmts env qs s1)
     \<and> length (filter (\<lambda>ev. ev = EPrepare sql) (new_events s (stmts env qs s1))) \<le> 1
     \<and> (\<forall>q v. statementCache s q = Some v \<longrightarrow> statementCache (stmts env qs s1) q = Some v)"
    if ret: "stmt env sql s = (Inr h, s1)" for h s1
  proof -
    note r = stmt_returns [OF ret]
    have c: "in_statementCache s1 sql" using r by blast
    note k = stmts_keep_cached [OF c, of env qs]
    have again: "stmt env sql (stmts env qs s1) = (Inr h, stmts env qs s1)"
      using k r by (simp add: stmt_cached)
    have first: "extends s s1 \<and> length (new_events s s1) \<le> 1"
      using stmt_adds_at_most_one [of s env sql] ret by simp
    have ne: "new_events s (stmts env qs s1) = new_events s s1 @ new_events s1 (stmts env qs s1)"
      using first k by (intro new_events_trans) blast+
    have "length (filter (\<lambda>ev. ev = EPrepare sql) (new_events s s1)) \<le> 1"
      using first le_trans [OF length_filter_le] by blast
    then have count: "length (filter (\<lambda>ev. ev = EPrepare sql) (new_events s (stmts env qs s1))) \<le> 1"
      using k by (simp add: ne)
    have kept: "\<forall>q v. statementCache s q = Some v \<longrightarrow> statementCache (stmts env qs s1) q = Some v"
      using stmt_keeps_entries [of s _ _ env sql] ret stmts_keep_entries by fastforce
    show ?thesis using again count kept by blast
  qed
  have raised:
    "statementCache s1 = statementCache s
     \<and> (dbConnection s \<noteq> None \<longrightarrow>
           new_events s s1 = [EPrepare sql]
         \<and> new_events s1 (snd (stmt env sql s1)) = [EPrepare sql])"
    if rai: "stmt env sql s = (Inl e, s1)" for e s1
  proof -
    note r = stmt_raises [OF rai]
    have same: "statementCache s1 = statementCache s" using r by blast
    have retry: "new_events s s1 = [EPrepare sql]
         \<and> new_events s1 (snd (stmt env sql s1)) = [EPrepare sql]"
      if db: "dbConnection s \<noteq> None"
    proof -
      have s1: "s1 = emit (EPrepare sql) s" using r db by blast
      have missing: "\<not> in_statementCache s1 sql"
        using r by (simp add: in_statementCache_def)
      have db1: "dbConnection s1 \<noteq> None" using r db by simp
      show ?thesis
        using stmt_compiles_when_missing [OF missing db1, of env] by (simp add: s1)
    qed
    show ?thesis using same retry by blast
  qed
  show ?thesis using returned raised by blast
qed

text \<open>
  On a connected module: \<open>SELECT 1\<close> is compiled once, and asked for again after
  \<open>SELECT 2\<close> and \<open>SELECT 1\<close> it is the same handle.
\<close>

theorem stmt_is_idempotent_witness:
  "stmt accepting_env ''SELECT 1''
      (stmts accepting_env [''SELECT 2'', ''SELECT 1'']
         (snd (stmt accepting_env ''SELECT 1'' connected_state)))
     = (Inr (Handle 0 ''SELECT 1''),
        stmts accepting_env [''SELECT 2'', ''SELECT 1'']
          (snd (stmt accepting_env ''SELECT 1'' connected_state)))
   \<and> length (filter (\<lambda>ev. ev = EPrepare ''SELECT 1'')
        (new_events connected_state
           (stmts accepting_env [''SELECT 2'', ''SELECT 1'']
              (snd (stmt accepting_env ''SELECT 1'' connected_state))))) \<le> 1"
proof -
  have first: "stmt accepting_env ''SELECT 1'' connected_state
      = (Inr (Handle 0 ''SELECT 1''), snd (stmt accepting_env ''SELECT 1'' connected_state))"
    by (simp add: stmt_def in_statementCache_def objectPrototypeKeys_def connected_state_def
                  initial_state_def setDbConnection_def accepting_env_def Let_def)
  show ?thesis
    using stmt_is_idempotent
            [of accepting_env "''SELECT 1''" connected_state "[''SELECT 2'', ''SELECT 1'']"] first
    by blast
qed

text \<open>
  Claim C5 as stated fails for a text that the engine refuses to compile: two calls of
  \<open>stmt\<close> with the same text invoke the compile step twice, and neither returns a
  handle.
\<close>

theorem stmt_is_idempotent_counterexample:
  "trace (stmts rejecting_env [''SELEC 1'', ''SELEC 1''] connected_state)
     = [EPrepare ''SELEC 1'', EPrepare ''SELEC 1'']
   \<and> length (filter (\<lambda>ev. ev = EPrepare ''SELEC 1'')
        (trace (stmts rejecting_env [''SELEC 1'', ''SELEC 1''] connected_state))) = 2
   \<and> fst (stmt rejecting_env ''SELEC 1'' connected_state) = Inl (EngineError ''syntax error'')"
  by (simp add: stmt_def in_statementCache_def objectPrototypeKeys_def rejecting_env_def
                accepting_env_def connected_state_def initial_state_def setDbConnection_def
                emit_def)

section \<open>Reads never begin a transaction\<close>

lemma read_events_no_run: "list_all read_event evs \<Longrightarrow> \<not> list_ex is_run evs"
  by (induction evs) (auto simp: read_event_def)

lemma quietly_read_alone:
  "quietly read_event m \<Longrightarrow> leaves_transaction_alone s (snd (m s))"
  by (simp add: quietly_def quiet_def leaves_transaction_alone_def read_events_no_run)

lemma begin_on_first_write:
  assumes "isTransactional s" and "\<not> isInTransaction s" and "cache_ok s"
    and "dbConnection s \<noteq> None" and "accepts_begin env"
  shows "extends s (snd (startTransactionIfNecessary env s))
       \<and> list_ex is_begin (new_events s (snd (startTransactionIfNecessary env s)))
       \<and> isInTransaction (snd (startTransactionIfNecessary env s))"
proof -
  let ?s0 = "s\<lparr>isInTransaction := True\<rparr>"
  let ?r = "and_then (stmt env ''BEGIN'') (\<lambda>h. stmt_run env h None) ?s0"
  have c0: "cache_ok ?s0" using assms(3) by (simp add: cache_ok_def)
  note v = verb_run [OF c0 not_inherited_verbs(1), of env]
  have s': "snd (startTransactionIfNecessary env s) = snd ?r"
    using assms(1,2)
    by (simp add: startTransactionIfNecessary_def beginTransaction_def split: prod.splits sum.splits)
  have q: "quiet (verb_event ''BEGIN'') ?s0 (snd ?r)" using v by blast
  have ne: "new_events s (snd ?r) = new_events ?s0 (snd ?r)" by (simp add: new_events_def)
  have ex: "extends s (snd ?r)" using q by (simp add: quiet_def extends_def)
  have "list_ex is_begin (new_events s (snd ?r))"
    using v assms(4,5) ne by (simp add: is_begin_def accepts_begin_def)
  moreover have "isInTransaction (snd ?r)" using q by (simp add: quiet_def)
  ultimately show ?thesis using ex by (simp add: s')
qed

lemma and_then_after:
  assumes "\<And>v s. extends s (snd (f v s))"
  shows "extends (snd (m s)) (snd (and_then m f s))"
proof -
  obtain r s1 where m: "m s = (r, s1)" by (cases "m s")
  show ?thesis using m assms by (cases r) (simp_all add: and_then_def)
qed

lemma list_ex_new_events_trans:
  assumes "extends s s1" and "extends s1 s2" and "list_ex P (new_events s s1)"
  shows "list_ex P (new_events s s2)"
proof -
  have "new_events s s2 = new_events s s1 @ new_events s1 s2"
    using assms(1,2) by (rule new_events_trans)
  then show ?thesis using assms(3) by simp
qed

lemma write_begins:
  assumes "isTransactional s" and "\<not> isInTransaction s" and "cache_ok s"
    and "dbConnection s \<noteq> None" and "accepts_begin env"
    and "\<And>v s. extends s (snd (f v s))"
  shows "list_ex is_begin (new_events s (snd (and_then (startTransactionIfNecessary env) f s)))"
  using begin_on_first_write [OF assms(1-5)] and_then_after [of f "startTransactionIfNecessary env" s] assms(6)
  by (blast intro: list_ex_new_events_trans)

lemma extends_quietly: "quietly P m \<Longrightarrow> extends s (snd (m s))"
  by (simp add: quietly_def quiet_def)

text \<open>
  Claim C8. The read helpers \<open>getRow\<close>, \<open>getRows\<close> and the helpers built on them
  (\<open>getRowOrNull\<close>, \<open>getValue\<close>, \<open>getMap\<close>, \<open>getColumn\<close>, \<open>getManyRows\<close>) never
  issue a BEGIN, whatever the state: they leave both flags as they are and never call
  \<open>run\<close> on any statement. The write operations \<open>execute\<close>, \<open>executeMany\<close> and
  \<open>executeScript\<close> do issue the lazy BEGIN when called in a scope in which none was
  issued yet (on a connected module whose engine compiles \<open>BEGIN\<close>).
\<close>

theorem reads_never_begin:
  "leaves_transaction_alone s (snd (getRow env query ps s))
   \<and> leaves_transaction_alone s (snd (getRows env query ps s))
   \<and> leaves_transaction_alone s (snd (getRowOrNull env query ps s))
   \<and> leaves_transaction_alone s (snd (getValue env query ps s))
   \<and> leaves_transaction_alone s (snd (getMap env query ps s))
   \<and> leaves_transaction_alone s (snd (getColumn env query ps s))
   \<and> leaves_transaction_alone s (snd (getManyRows env query xs s))
   \<and> (isTransactional s \<and> \<not> isInTransaction s \<and> cache_ok s \<and> dbConnection s \<noteq> None
        \<and> accepts_begin env
      \<longrightarrow> list_ex is_begin (new_events s (snd (execute env query ps s)))
        \<and> list_ex is_begin (new_events s (snd (executeMany env query xs s)))
        \<and> list_ex is_begin (new_events s (snd (executeScript env query s))))"
proof -
  have writes: "list_ex is_begin (new_events s (snd (execute env query ps s)))
        \<and> list_ex is_begin (new_events s (snd (executeMany env query xs s)))
        \<and> list_ex is_begin (new_events s (snd (executeScript env query s)))"
    if p: "isTransactional s" "\<not> isInTransaction s" "cache_ok s" "dbConnection s \<noteq> None"
          "accepts_begin env"
  proof -
    have "\<And>u s. extends s (snd (wrap env (and_then (stmt env query) (\<lambda>h. stmt_run env h (Some ps))) query s))"
      by (rule extends_quietly [where P = "\<lambda>ev. True"])
         (intro quietly_wrap quietly_and_then quietly_stmt quietly_stmt_run; simp)
    then have 1: "list_ex is_begin (new_events s (snd (execute env query ps s)))"
      unfolding execute_def by (intro write_begins p)
    have "\<And>u s. extends s (snd (and_then (getManyRows env query xs) (\<lambda>rows s. (Inr (), s)) s))"
      by (rule extends_quietly [where P = read_event])
         (intro quietly_and_then quietly_getManyRows quietly_return)
    then have 2: "list_ex is_begin (new_events s (snd (executeMany env query xs s)))"
      unfolding executeMany_def by (intro write_begins p)
    have "\<And>u s. extends s (snd (wrap env (\<lambda>s. (Inl (TypeError ''stmt.run is not a function''), s)) query s))"
      by (simp add: wrap_raising)
    then have 3: "list_ex is_begin (new_events s (snd (executeScript env query s)))"
      unfolding executeScript_def by (intro write_begins p)
    show ?thesis using 1 2 3 by blast
  qed
  show ?thesis
    using writes
    by (simp add: quietly_read_alone quietly_getRow quietly_getRows quietly_getRowOrNull
                  quietly_getValue quietly_getMap quietly_getColumn quietly_getManyRows)
qed

text \<open>
  In such a state \<open>getRows\<close> adds a compilation and a call of \<open>all\<close> and leaves
  \<open>isInTransaction\<close> unset; \<open>execute\<close> issues the BEGIN.
\<close>

theorem reads_never_begin_witness:
  "leaves_transaction_alone pending_state
      (snd (getRows accepting_env ''SELECT * FROM notes'' (PArr []) pending_state))
   \<and> \<not> isInTransaction (snd (getRows accepting_env ''SELECT * FROM notes'' (PArr []) pending_state))
   \<and> list_ex is_begin
       (new_events pending_state
          (snd (execute accepting_env ''SELECT * FROM notes'' (PArr []) pending_state)))"
proof -
  have p: "isTransactional pending_state \<and> \<not> isInTransaction pending_state
      \<and> cache_ok pending_state \<and> dbConnection pending_state \<noteq> None \<and> accepts_begin accepting_env"
    by (simp add: pending_state_def connected_state_def initial_state_def setDbConnection_def
                  cache_ok_def accepts_begin_def accepting_env_def)
  note r = reads_never_begin [of pending_state accepting_env "''SELECT * FROM notes''" "PArr []" "[]"]
  have "\<not> isInTransaction (snd (getRows accepting_env ''SELECT * FROM notes'' (PArr []) pending_state))"
    using r p by (simp add: leaves_transaction_alone_def)
  then show ?thesis using r p by blast
qed

section \<open>Calls before the connection is set\<close>

lemma wrap_unconnected:
  "dbConnection s = None \<Longrightarrow> wrap env func query s = (Inl connection_not_initialized, s)"
  by (simp add: wrap_def connection_not_initialized_def)

lemma start_not_pending:
  "\<not> (isTransactional s \<and> \<not> isInTransaction s) \<Longrightarrow> startTransactionIfNecessary env s = (Inr (), s)"
  by (auto simp: startTransactionIfNecessary_def)

lemma getRows_unconnected:
  "dbConnection s = None \<Longrightarrow> getRows env query ps s = (Inl connection_not_initialized, s)"
  by (simp add: getRows_def wrap_unconnected)

lemma execute_unconnected:
  "dbConnection s = None \<Longrightarrow> \<not> (isTransactional s \<and> \<not> isInTransaction s) \<Longrightarrow>
   execute env query ps s = (Inl connection_not_initialized, s)"
  by (simp add: execute_def and_then_def start_not_pending wrap_unconnected)

lemma getManyRows_unconnected:
  "dbConnection s = None \<Longrightarrow> xs \<noteq> [] \<Longrightarrow>
   getManyRows env query xs s = (Inl connection_not_initialized, s)"
  by (simp add: getManyRows_def getManyRows_loop_step getRows_unconnected)

text \<open>
  Claim C6, as amended. Before the connection handle is set,
  \<^item> every call of \<open>getRow\<close>, \<open>getRows\<close>, \<open>getRowOrNull\<close>, \<open>getValue\<close>, \<open>getMap\<close>,
    \<open>getColumn\<close>, and of \<open>getManyRows\<close> with a non-empty parameter list, and
  \<^item> every call of \<open>execute\<close>, \<open>executeScript\<close>, of \<open>executeMany\<close> with a non-empty
    parameter list and of \<open>insert\<close>, \<open>replace\<close>, \<open>upsert\<close> with a non-empty record,
    made while no lazy BEGIN is pending (outside a scope, or in a scope whose BEGIN was
    already issued),
  fails with the error \<open>DB connection not initialized yet\<close> and leaves the module as it
  is: no engine work, no log entry. (\<open>upsert\<close> has normalized the caller's record by
  then.)
\<close>

theorem unconnected_calls_fail:
  assumes "dbConnection s = None"
  shows "getRow env query ps s = (Inl connection_not_initialized, s)
       \<and> getRows env query ps s = (Inl connection_not_initialized, s)
       \<and> getRowOrNull env query ps s = (Inl connection_not_initialized, s)
       \<and> getValue env query ps s = (Inl connection_not_initialized, s)
       \<and> getMap env query ps s = (Inl connection_not_initialized, s)
       \<and> getColumn env query ps s = (Inl connection_not_initialized, s)
       \<and> (xs \<noteq> [] \<longrightarrow> getManyRows env query xs s = (Inl connection_not_initialized, s))
       \<and> (\<not> (isTransactional s \<and> \<not> isInTransaction s) \<longrightarrow>
            execute env query ps s = (Inl connection_not_initialized, s)
          \<and> executeScript env query s = (Inl connection_not_initialized, s)
          \<and> (xs \<noteq> [] \<longrightarrow> executeMany env query xs s = (Inl connection_not_initialized, s))
          \<and> (rec \<noteq> [] \<longrightarrow>
                insert_rec env tableName rec replace s = (Inl connection_not_initialized, s)
              \<and> replace_rec env tableName rec s = (Inl connection_not_initialized, s)
              \<and> upsert env tableName primaryKey rec s
                  = (Inl connection_not_initialized, normalize_booleans rec, s)))"
proof -
  note [simp] = and_then_def wrap_unconnected [OF assms] getRows_unconnected [OF assms]
  have reads: "getRow env query ps s = (Inl connection_not_initialized, s)"
    "getRows env query ps s = (Inl connection_not_initialized, s)"
    "getRowOrNull env query ps s = (Inl connection_not_initialized, s)"
    "getValue env query ps s = (Inl connection_not_initialized, s)"
    "getMap env query ps s = (Inl connection_not_initialized, s)"
    "getColumn env query ps s = (Inl connection_not_initialized, s)"
    by (simp_all add: getRow_def getRowOrNull_def getValue_def getMap_def getColumn_def)
  have many: "xs \<noteq> [] \<longrightarrow> getManyRows env query xs s = (Inl connection_not_initialized, s)"
    using assms by (simp add: getManyRows_unconnected)
  have writes: "execute env query ps s = (Inl connection_not_initialized, s)
          \<and> executeScript env query s = (Inl connection_not_initialized, s)
          \<and> (xs \<noteq> [] \<longrightarrow> executeMany env query xs s = (Inl connection_not_initialized, s))
          \<and> (rec \<noteq> [] \<longrightarrow>
                insert_rec env tableName rec replace s = (Inl connection_not_initialized, s)
              \<and> replace_rec env tableName rec s = (Inl connection_not_initialized, s)
              \<and> upsert env tableName primaryKey rec s
                  = (Inl connection_not_initialized, normalize_booleans rec, s))"
    if np: "\<not> (isTransactional s \<and> \<not> isInTransaction s)"
    using assms
    by (simp add: execute_unconnected [OF assms np] start_not_pending [OF np]
                  executeScript_def executeMany_def getManyRows_unconnected
                  insert_rec_def replace_rec_def upsert_def Let_def)
  show ?thesis using reads many writes by blast
qed

text \<open>On the freshly loaded module.\<close>

theorem unconnected_calls_fail_witness:
  "dbConnection initial_state = None
   \<and> getRows accepting_env ''SELECT * FROM notes'' (PArr []) initial_state
       = (Inl (Error ''DB connection not initialized yet''), initial_state)
   \<and> execute accepting_env ''DELETE FROM notes'' (PArr []) initial_state
       = (Inl (Error ''DB connection not initialized yet''), initial_state)
   \<and> insert_rec accepting_env ''notes'' sample_record False initial_state
       = (Inl (Error ''DB connection not initialized yet''), initial_state)"
proof -
  have u: "dbConnection initial_state = None" by (simp add: initial_state_def)
  have np: "\<not> (isTransactional initial_state \<and> \<not> isInTransaction initial_state)"
    by (simp add: initial_state_def)
  have ne: "sample_record \<noteq> []" by (simp add: sample_record_def)
  show ?thesis
    using unconnected_calls_fail [OF u, of accepting_env "''SELECT * FROM notes''" "PArr []" "[]"
            sample_record "''notes''" False "''noteId''"]
          unconnected_calls_fail [OF u, of accepting_env "''DELETE FROM notes''" "PArr []" "[]"
            sample_record "''notes''" False "''noteId''"]
          u np ne
    by (simp add: connection_not_initialized_def)
qed

text \<open>
  Claim C6 as stated fails. On the freshly loaded module, a write inside a
  \<open>transactional\<close> scope raises the \<open>TypeError\<close> of \<open>dbConnection.prepare\<close> (the lazy
  BEGIN is not wrapped), not the error of \<open>wrap\<close>; \<open>insert\<close> of an empty record and
  \<open>executeMany\<close> of an empty list do not fail at all.
\<close>

theorem unconnected_calls_fail_counterexample:
  "fst (transactional accepting_env (execute accepting_env ''DELETE FROM notes'' (PArr []))
          initial_state)
     = Inl (TypeError ''Cannot read properties of undefined (reading prepare)'')
   \<and> fst (insert_rec accepting_env ''notes'' [] False initial_state) = Inr Undefined
   \<and> fst (executeMany accepting_env ''DELETE FROM notes WHERE noteId IN (???)'' [] initial_state)
     = Inr ()"
  by (simp add: transactional_def transactional_try_def transactional_catch_def execute_def
                and_then_def startTransactionIfNecessary_def beginTransaction_def rollback_def
                stmt_def in_statementCache_def objectPrototypeKeys_def initial_state_def
                insert_rec_def executeMany_def getManyRows_def)

section \<open>Leaving a scope\<close>

lemma transactional_idle:
  "\<not> isTransactional s \<Longrightarrow>
   transactional env func s
     = (fst (transactional_try env func (s\<lparr>isTransactional := True\<rparr>)),
        transactional_finally (snd (transactional_try env func (s\<lparr>isTransactional := True\<rparr>))))"
  by (simp add: transactional_def split: prod.splits)

lemma try_raised:
  "func s0 = (Inl e, s1) \<Longrightarrow> transactional_try env func s0 = transactional_catch env e s1"
  by (simp add: transactional_try_def)

lemma catch_rolled_back:
  "isInTransaction s \<Longrightarrow> rollback env s = (Inr info, s2) \<Longrightarrow>
   transactional_catch env e s = (Inl e, s2)"
  by (simp add: transactional_catch_def)

lemma catch_rollback_raised:
  "isInTransaction s \<Longrightarrow> rollback env s = (Inl e', s2) \<Longrightarrow>
   transactional_catch env e s = (Inl e', s2)"
  by (simp add: transactional_catch_def)

lemma verb_run_returns:
  fixes env :: env
  assumes "cache_ok s" and "v \<notin> set objectPrototypeKeys"
    and "and_then (stmt env v) (\<lambda>h. stmt_run env h None) s = (Inr info, s2)"
  shows "trace s2 \<noteq> [] \<and> is_verb v (last (trace s2))"
  using assms(1,2)
proof (cases rule: stmt_cases [of s v env])
  case unconnected
  then show ?thesis using assms(3) by (simp add: and_then_def)
next
  case (rejected e)
  then show ?thesis using assms(3) by (simp add: and_then_def)
next
  case compiled
  then show ?thesis
    using assms(3) by (auto simp: and_then_def stmt_run_def split: sum.splits)
next
  case (cached n)
  then show ?thesis
    using assms(3) by (auto simp: and_then_def stmt_run_def split: sum.splits)
qed

text \<open>
  Claim C2, as amended. Let the body of an outermost \<open>transactional\<close> call raise \<open>e\<close>
  after a BEGIN was issued in its scope. If the ROLLBACK that the coordinator then issues
  returns normally, the call re-raises \<open>e\<close> itself, and the ROLLBACK is the last thing
  sent to the engine; if the ROLLBACK raises, that error is what the call raises. On every
  exit path of an outermost call, whatever the body did, both flags are unset when the
  call returns or raises.
\<close>

theorem rollback_and_rethrow:
  assumes "\<not> isTransactional s"
  shows "\<not> isTransactional (snd (transactional env func s))
       \<and> \<not> isInTransaction (snd (transactional env func s))
       \<and> (\<forall>e s1 info s2.
             func (s\<lparr>isTransactional := True\<rparr>) = (Inl e, s1) \<and> isInTransaction s1
             \<and> rollback env s1 = (Inr info, s2)
           \<longrightarrow> transactional env func s = (Inl e, transactional_finally s2)
             \<and> (cache_ok s1 \<longrightarrow> is_rollback (last (trace s2))))
       \<and> (\<forall>e s1 e' s2.
             func (s\<lparr>isTransactional := True\<rparr>) = (Inl e, s1) \<and> isInTransaction s1
             \<and> rollback env s1 = (Inl e', s2)
           \<longrightarrow> transactional env func s = (Inl e', transactional_finally s2))"
proof -
  have flags: "\<not> isTransactional (snd (transactional env func s))
       \<and> \<not> isInTransaction (snd (transactional env func s))"
    using assms by (simp add: transactional_idle)
  have ok: "transactional env func s = (Inl e, transactional_finally s2)
             \<and> (cache_ok s1 \<longrightarrow> is_rollback (last (trace s2)))"
    if "func (s\<lparr>isTransactional := True\<rparr>) = (Inl e, s1)" "isInTransaction s1"
       "rollback env s1 = (Inr info, s2)" for e s1 info s2
  proof -
    have "transactional env func s = (Inl e, transactional_finally s2)"
      using assms that by (simp add: transactional_idle try_raised catch_rolled_back)
    moreover have "cache_ok s1 \<longrightarrow> is_rollback (last (trace s2))"
      using verb_run_returns [of s1 "''ROLLBACK''" env info s2] that(3)
      by (simp add: rollback_def is_rollback_def)
    ultimately show ?thesis by blast
  qed
  have bad: "transactional env func s = (Inl e', transactional_finally s2)"
    if "func (s\<lparr>isTransactional := True\<rparr>) = (Inl e, s1)" "isInTransaction s1"
       "rollback env s1 = (Inl e', s2)" for e s1 e' s2
    using assms that by (simp add: transactional_idle try_raised catch_rollback_raised)
  show ?thesis using flags ok bad by blast
qed

lemma trace_connected [simp]:
  "trace connected_state = []" "dbConnection connected_state = Some 0"
  "\<not> isTransactional connected_state" "\<not> isInTransaction connected_state"
  "statementCache connected_state = Map.empty"
  by (simp_all add: connected_state_def initial_state_def setDbConnection_def)

lemmas run_defs =
  transactional_def transactional_try_def transactional_catch_def transactional_finally_def
  execute_def and_then_def startTransactionIfNecessary_def beginTransaction_def commit_def
  rollback_def stmt_def stmt_run_def wrap_def in_statementCache_def statementCache_get_def
  objectPrototypeKeys_def emit_def log_error_def log_info_def sendPingToAllClients_def Let_def

text \<open>The outcome of a body that writes once and then raises, on an engine that accepts everything.\<close>

lemma boom_accepting:
  "fst (transactional accepting_env (write_then_throw accepting_env (Error ''boom'')) connected_state)
     = Inl (Error ''boom'')"
  by (simp add: run_defs write_then_throw_def accepting_env_def
                connected_state_def initial_state_def setDbConnection_def)

text \<open>
  A body that writes once and then raises, on an engine that accepts everything: the
  caller sees the body's error, and both flags are unset.
\<close>

theorem rollback_and_rethrow_witness:
  "\<not> isTransactional connected_state
   \<and> fst (transactional accepting_env (write_then_throw accepting_env (Error ''boom'')) connected_state)
       = Inl (Error ''boom'')
   \<and> \<not> isTransactional
        (snd (transactional accepting_env (write_then_throw accepting_env (Error ''boom'')) connected_state))
   \<and> \<not> isInTransaction
        (snd (transactional accepting_env (write_then_throw accepting_env (Error ''boom'')) connected_state))"
proof -
  have idle: "\<not> isTransactional connected_state" by simp
  show ?thesis
    using rollback_and_rethrow [OF idle, of accepting_env "write_then_throw accepting_env (Error ''boom'')"]
          boom_accepting idle
    by blast
qed

text \<open>
  Claim C2 as stated fails when the engine refuses the ROLLBACK: the caller then sees the
  error of the ROLLBACK, not the error the body raised.
\<close>

theorem rollback_and_rethrow_counterexample:
  "fst (transactional failing_rollback_env (write_then_throw failing_rollback_env (Error ''boom''))
          connected_state)
     = Inl (EngineError ''cannot rollback - no transaction is active'')"
  by (simp add: run_defs write_then_throw_def failing_rollback_env_def accepting_env_def
                connected_state_def initial_state_def setDbConnection_def)

section \<open>Notification of the clients\<close>

lemma try_committed:
  assumes "func s0 = (Inr ret, s1)" and "isInTransaction s1" and "commit env s1 = (Inr info, s2)"
  shows "transactional_try env func s0 =
     (case ws_sendPing env (trace s2) of
        None \<Rightarrow> (Inr ret, emit EPing s2)
      | Some e \<Rightarrow> transactional_catch env e (emit EPing s2))"
  using assms
  by (simp add: transactional_try_def sendPingToAllClients_def split: option.splits)

lemma isl_catch: "isl (fst (transactional_catch env e s))"
  by (simp add: transactional_catch_def split: prod.splits sum.splits)

lemma try_without_commit:
  assumes "func s0 = (r1, s1)" and "isl r1 \<or> \<not> isInTransaction s1"
  shows "snd (transactional_try env func s0) = (if isInTransaction s1 then snd (rollback env s1) else s1)"
  using assms by (cases r1) (auto simp: transactional_try_def snd_catch)

lemma filter_empty_length: "length (filter P xs) \<le> 0 \<Longrightarrow> filter P xs = []"
  by simp




section \<open>Nested scopes\<close>

text \<open>
  Claim C1, as amended. For every function body, \<open>transactional(() => transactional(inner))\<close>
  does exactly what \<open>transactional(inner)\<close> does: inside a scope the inner call is its
  body run inline, it marks no new scope and issues neither COMMIT nor ROLLBACK. For a
  body that reaches the module only through its exported functions, the whole outermost
  call issues at most one physical BEGIN, at most one COMMIT and at most one ROLLBACK;
  it issues exactly one BEGIN when a write was reached in the scope (on a connected
  module whose engine compiles \<open>BEGIN\<close>), and none when no write was reached.
\<close>

theorem nested_scopes_share_one_transaction:
  assumes "\<not> isTransactional s" and "cache_ok s" and "flags_ok s" and "well_behaved env inner"
  shows "transactional env (transactional env inner) s = transactional env inner s
       \<and> transactional env inner (s\<lparr>isTransactional := True\<rparr>) = inner (s\<lparr>isTransactional := True\<rparr>)
       \<and> filter is_commit
           (new_events (s\<lparr>isTransactional := True\<rparr>)
              (snd (transactional env inner (s\<lparr>isTransactional := True\<rparr>)))) = []
       \<and> filter is_rollback
           (new_events (s\<lparr>isTransactional := True\<rparr>)
              (snd (transactional env inner (s\<lparr>isTransactional := True\<rparr>)))) = []
       \<and> length (filter is_begin
           (new_events s (snd (transactional env (transactional env inner) s)))) \<le> 1
       \<and> length (filter is_commit
           (new_events s (snd (transactional env (transactional env inner) s)))) \<le> 1
       \<and> length (filter is_rollback
           (new_events s (snd (transactional env (transactional env inner) s)))) \<le> 1
       \<and> (dbConnection s \<noteq> None \<and> accepts_begin env
            \<and> isInTransaction (snd (inner (s\<lparr>isTransactional := True\<rparr>)))
          \<longrightarrow> length (filter is_begin
                 (new_events s (snd (transactional env (transactional env inner) s)))) = 1)
       \<and> (\<not> isInTransaction (snd (inner (s\<lparr>isTransactional := True\<rparr>)))
          \<longrightarrow> filter is_begin
                 (new_events s (snd (transactional env (transactional env inner) s))) = [])"
proof -
  let ?s0 = "s\<lparr>isTransactional := True\<rparr>"
  have nest: "transactional env (transactional env inner) s = transactional env inner s"
    by (rule transactional_nested_eq)
  have inline: "transactional env inner ?s0 = inner ?s0"
    by (simp add: transactional_inline)
  have ok0: "cache_ok ?s0 \<and> flags_ok ?s0"
    using assms(2,3) by (simp add: cache_ok_def flags_ok_def)
  have body: "scope_step env ?s0 (snd (inner ?s0))"
    using assms(4) ok0 unfolding well_behaved_def by blast
  have quiet_body: "filter is_commit (new_events ?s0 (snd (inner ?s0))) = []"
       "filter is_rollback (new_events ?s0 (snd (inner ?s0))) = []"
    using body by (simp_all add: scope_step_def list_ex_filter)
  note outer = transactional_outer [OF assms(4,2,3,1)]
  show ?thesis
    unfolding nest inline using quiet_body outer by blast
qed

text \<open>
  One write in a doubly nested scope, on an engine that accepts everything: one BEGIN and
  one COMMIT.
\<close>

theorem nested_scopes_share_one_transaction_witness:
  "length (filter is_begin
      (new_events connected_state
         (snd (transactional accepting_env
                 (transactional accepting_env (execute accepting_env ''DELETE FROM notes'' (PArr [])))
                 connected_state)))) = 1
   \<and> length (filter is_commit
      (new_events connected_state
         (snd (transactional accepting_env
                 (transactional accepting_env (execute accepting_env ''DELETE FROM notes'' (PArr [])))
                 connected_state)))) \<le> 1"
proof -
  let ?body = "execute accepting_env ''DELETE FROM notes'' (PArr [])"
  have idle: "\<not> isTransactional connected_state" by simp
  have c: "cache_ok connected_state" by (simp add: cache_ok_def)
  have f: "flags_ok connected_state" by (simp add: flags_ok_def)
  have wb: "well_behaved accepting_env ?body" by (rule well_behaved_execute)
  have db: "dbConnection connected_state \<noteq> None" by simp
  have ab: "accepts_begin accepting_env" by (simp add: accepts_begin_def accepting_env_def)
  have w: "isInTransaction (snd (?body (connected_state\<lparr>isTransactional := True\<rparr>)))"
    by (simp add: run_defs accepting_env_def)
  show ?thesis
    using nested_scopes_share_one_transaction [OF idle c f wb] db ab w by blast
qed

text \<open>
  Claim C1 as stated fails for a body that only reads: the nested call issues no BEGIN
  at all.
\<close>

theorem nested_scopes_share_one_transaction_counterexample:
  "trace (snd (transactional accepting_env
                 (transactional accepting_env (getRows accepting_env ''SELECT * FROM notes'' (PArr [])))
                 connected_state))
     = [EPrepare ''SELECT * FROM notes'', EAll (Handle 0 ''SELECT * FROM notes'') (Some (PArr []))]
   \<and> filter is_begin
       (trace (snd (transactional accepting_env
                 (transactional accepting_env (getRows accepting_env ''SELECT * FROM notes'' (PArr [])))
                 connected_state))) = []"
  by (simp add: run_defs getRows_def stmt_all_def accepting_env_def is_begin_def
                connected_state_def initial_state_def setDbConnection_def)

section \<open>Batches of parameters\<close>

lemma length_curParamsObj_of [simp]: "length (curParamsObj_of xs) = length xs"
  by (simp add: curParamsObj_of_def del: upt_Suc)

lemma values_curParamsObj_of [simp]: "map snd (curParamsObj_of xs) = xs"
  unfolding curParamsObj_of_def by (rule map_snd_zip) (simp del: upt_Suc)

lemma replace_marker_contains:
  "includes_str q ''???'' \<Longrightarrow> set r \<subseteq> set (replace_marker q r)"
  by (induction q) auto

lemma join_first: "set x \<subseteq> set (join sep (x # xs))"
  by (cases xs) auto

lemma questionMarks_of_colon:
  assumes "0 < n"
  shows "CHR '':'' \<in> set (questionMarks_of n)"
proof -
  have "[1 ..< Suc n] = 1 # [Suc 1 ..< Suc n]"
    using assms by (intro upt_conv_Cons) simp
  then have "questionMarks_of n
      = join '','' (('':param'' @ show_nat 1) # map (\<lambda>i. '':param'' @ show_nat i) [Suc 1 ..< Suc n])"
    unfolding questionMarks_of_def by (simp only: list.map)
  then show ?thesis
    using join_first [of "'':param'' @ show_nat 1" "'',''"] by auto
qed

lemma colon_not_inherited: "CHR '':'' \<in> set q \<Longrightarrow> q \<notin> set objectPrototypeKeys"
  by (auto simp: objectPrototypeKeys_def)

lemma batch_query_not_inherited:
  "includes_str q ''???'' \<Longrightarrow> 0 < n \<Longrightarrow>
   replace_marker q (questionMarks_of n) \<notin> set objectPrototypeKeys"
  using replace_marker_contains [of q "questionMarks_of n"] questionMarks_of_colon [of n]
  by (intro colon_not_inherited) auto

lemma getRows_accepted:
  assumes "cache_ok s" and "dbConnection s \<noteq> None" and "q \<notin> set objectPrototypeKeys"
    and "accepts_queries env"
  shows "\<not> isl (fst (getRows env q ps s))
       \<and> cache_ok (snd (getRows env q ps s))
       \<and> dbConnection (snd (getRows env q ps s)) = dbConnection s
       \<and> extends s (snd (getRows env q ps s))
       \<and> map bound_count (filter is_execution (new_events s (snd (getRows env q ps s))))
           = [case ps of PArr xs \<Rightarrow> length xs | PObj obj \<Rightarrow> length obj]"
proof -
  have q: "quiet read_event s (snd (getRows env q ps s))"
    using quietly_getRows by (simp add: quietly_def)
  have pr: "\<And>tr. eng_prepare env tr q = None"
    using assms(4) by (simp add: accepts_queries_def)
  have al: "\<And>tr h. \<exists>rows. eng_all env tr h (Some ps) = Inr rows"
    using assms(4) by (metis accepts_queries_def isl_def sum.collapse(2) sum.disc(2) sumE)
  have bc: "bound_count (EAll h (Some ps)) = (case ps of PArr xs \<Rightarrow> length xs | PObj obj \<Rightarrow> length obj)"
    for h by (cases ps) simp_all
  have main: "\<not> isl (fst (getRows env q ps s))
       \<and> map bound_count (filter is_execution (new_events s (snd (getRows env q ps s))))
           = [case ps of PArr xs \<Rightarrow> length xs | PObj obj \<Rightarrow> length obj]"
    using assms(1,3)
  proof (cases rule: stmt_cases [of s q env])
    case unconnected
    then show ?thesis using assms(2) by simp
  next
    case (rejected e)
    then show ?thesis using pr by simp
  next
    case compiled
    let ?h = "Handle (length (trace s)) q"
    let ?s1 = "(emit (EPrepare q) s)\<lparr>statementCache := (statementCache s)(q \<mapsto> ?h)\<rparr>"
    obtain rows where r: "eng_all env (trace ?s1) ?h (Some ps) = Inr rows" using al by blast
    show ?thesis
      using compiled assms(2) r bc [of ?h]
      by (simp add: getRows_def wrap_def and_then_def stmt_all_def Let_def log_info_def
                    new_events_def emit_def)
  next
    case (cached n)
    let ?h = "Handle n q"
    obtain rows where r: "eng_all env (trace s) ?h (Some ps) = Inr rows" using al by blast
    show ?thesis
      using cached assms(2) r bc [of ?h]
      by (simp add: getRows_def wrap_def and_then_def stmt_all_def Let_def log_info_def
                    new_events_def emit_def)
  qed
  show ?thesis
    using q main assms(1) by (simp add: quiet_def)
qed

lemma getManyRows_two_batches:
  assumes "length xs = 1500"
  shows "getManyRows env query xs s =
     (case getRows env (replace_marker query (questionMarks_of 900))
             (PObj (curParamsObj_of (take 900 xs))) s of
        (Inl e, s1) \<Rightarrow> (Inl e, s1)
      | (Inr rows1, s1) \<Rightarrow>
          (case getRows env (replace_marker query (questionMarks_of 600))
                  (PObj (curParamsObj_of (drop 900 xs))) s1 of
             (Inl e, s2) \<Rightarrow> (Inl e, s2)
           | (Inr rows2, s2) \<Rightarrow> (Inr (rows1 @ rows2), s2)))"
proof -
  have ne: "xs \<noteq> []" using assms by auto
  have ne2: "drop 900 xs \<noteq> []" using assms by simp
  have first: "getManyRows_loop env query xs [] s =
     (case getRows env (replace_marker query (questionMarks_of 900))
             (PObj (curParamsObj_of (take 900 xs))) s of
        (Inl e, s1) \<Rightarrow> (Inl e, s1)
      | (Inr rows1, s1) \<Rightarrow> getManyRows_loop env query (drop 900 xs) rows1 s1)"
    using getManyRows_loop_step [OF ne, of env query "[]" s] assms
    by (simp add: PARAM_LIMIT_def cong: prod.case_cong sum.case_cong)
  have second: "getManyRows_loop env query (drop 900 xs) rows1 s1 =
     (case getRows env (replace_marker query (questionMarks_of 600))
             (PObj (curParamsObj_of (drop 900 xs))) s1 of
        (Inl e, s2) \<Rightarrow> (Inl e, s2)
      | (Inr rows2, s2) \<Rightarrow> (Inr (rows1 @ rows2), s2))" for rows1 s1
    using getManyRows_loop_step [OF ne2, of env query rows1 s1] assms
    by (simp add: PARAM_LIMIT_def cong: prod.case_cong sum.case_cong)
  show ?thesis
    unfolding getManyRows_def first by (simp only: second cong: prod.case_cong sum.case_cong)
qed

lemma getManyRows_two_batches_accepted:
  assumes "length xs = 1500" and "cache_ok s" and "dbConnection s \<noteq> None"
    and "includes_str query ''???''" and "accepts_queries env"
  shows "\<not> isl (fst (getManyRows env query xs s))
       \<and> map bound_count (filter is_execution (new_events s (snd (getManyRows env query xs s))))
           = [900, 600]"
proof -
  let ?q1 = "replace_marker query (questionMarks_of 900)"
  let ?q2 = "replace_marker query (questionMarks_of 600)"
  let ?o1 = "PObj (curParamsObj_of (take 900 xs))"
  let ?o2 = "PObj (curParamsObj_of (drop 900 xs))"
  have n1: "?q1 \<notin> set objectPrototypeKeys" and n2: "?q2 \<notin> set objectPrototypeKeys"
    using assms(4) by (simp_all add: batch_query_not_inherited)
  obtain r1 s1 where g1: "getRows env ?q1 ?o1 s = (r1, s1)" by (cases "getRows env ?q1 ?o1 s")
  note a1 = getRows_accepted [OF assms(2,3) n1 assms(5), of ?o1]
  obtain rows1 where r1: "r1 = Inr rows1" using a1 g1 by (cases r1) simp_all
  have c1: "cache_ok s1" and d1: "dbConnection s1 \<noteq> None" and e1: "extends s s1"
    and b1: "map bound_count (filter is_execution (new_events s s1)) = [900]"
    using a1 g1 assms(1,3) by simp_all
  obtain r2 s2 where g2: "getRows env ?q2 ?o2 s1 = (r2, s2)" by (cases "getRows env ?q2 ?o2 s1")
  note a2 = getRows_accepted [OF c1 d1 n2 assms(5), of ?o2]
  obtain rows2 where r2: "r2 = Inr rows2" using a2 g2 by (cases r2) simp_all
  have e2: "extends s1 s2"
    and b2: "map bound_count (filter is_execution (new_events s1 s2)) = [600]"
    using a2 g2 assms(1) by simp_all
  have res: "getManyRows env query xs s = (Inr (rows1 @ rows2), s2)"
    using g1 r1 g2 r2 by (simp add: getManyRows_two_batches [OF assms(1)])
  have "new_events s s2 = new_events s s1 @ new_events s1 s2"
    using e1 e2 by (rule new_events_trans)
  then show ?thesis using res b1 b2 by simp
qed

lemma executeMany_not_pending:
  assumes "\<not> (isTransactional s \<and> \<not> isInTransaction s)"
  shows "executeMany env query xs s =
     (case getManyRows env query xs s of
        (Inl e, s') \<Rightarrow> (Inl e, s')
      | (Inr rows, s') \<Rightarrow> (Inr (), s'))"
  by (simp add: executeMany_def and_then_def start_not_pending [OF assms])

lemma getManyRows_Nil: "getManyRows env query [] s = (Inr [], s)"
  by (simp add: getManyRows_def)

lemma verb_run_accepted:
  fixes env :: env
  assumes "cache_ok s" and "v \<notin> set objectPrototypeKeys" and "dbConnection s \<noteq> None"
    and "\<And>tr. eng_prepare env tr v = None" and "accepts_verbs env"
  shows "\<not> isl (fst (and_then (stmt env v) (\<lambda>h. stmt_run env h None) s))"
proof -
  have run: "\<And>tr h. \<exists>info. eng_run env tr h None = Inr info"
    using assms(5) by (metis accepts_verbs_def isl_def sum.collapse(2) sum.disc(2) sumE)
  show ?thesis
    using assms(1,2)
  proof (cases rule: stmt_cases [of s v env])
    case unconnected
    then show ?thesis using assms(3) by simp
  next
    case (rejected e)
    then show ?thesis using assms(4) by simp
  next
    case compiled
    let ?h = "Handle (length (trace s)) v"
    let ?s1 = "(emit (EPrepare v) s)\<lparr>statementCache := (statementCache s)(v \<mapsto> ?h)\<rparr>"
    obtain info where "eng_run env (trace ?s1) ?h None = Inr info" using run by blast
    then show ?thesis using compiled by (simp add: and_then_def stmt_run_def)
  next
    case (cached n)
    obtain info where "eng_run env (trace s) (Handle n v) None = Inr info" using run by blast
    then show ?thesis using cached by (simp add: and_then_def stmt_run_def)
  qed
qed

lemma verb_events_no_batch:
  "list_all (verb_event ''BEGIN'') evs \<Longrightarrow> filter is_batch evs = []"
  by (induction evs) (auto simp: verb_event_def is_batch_def is_begin_def)

lemma read_events_batches:
  "list_all read_event evs \<Longrightarrow>
   filter is_batch evs = filter is_execution evs \<and> filter is_begin evs = []"
proof (induction evs)
  case Nil
  then show ?case by simp
next
  case (Cons ev evs)
  have "\<not> is_begin ev"
    using Cons.prems by (cases ev) (auto simp: is_begin_def read_event_def dest: is_verb_bare)
  then show ?case using Cons by (simp add: is_batch_def)
qed

lemma start_accepted:
  assumes "cache_ok s" and "dbConnection s \<noteq> None"
    and "accepts_queries env" and "accepts_verbs env"
  shows "fst (startTransactionIfNecessary env s) = Inr ()
       \<and> cache_ok (snd (startTransactionIfNecessary env s))
       \<and> dbConnection (snd (startTransactionIfNecessary env s)) = dbConnection s
       \<and> extends s (snd (startTransactionIfNecessary env s))
       \<and> list_all (verb_event ''BEGIN'') (new_events s (snd (startTransactionIfNecessary env s)))
       \<and> length (filter is_begin (new_events s (snd (startTransactionIfNecessary env s))))
           = (if isTransactional s \<and> \<not> isInTransaction s then 1 else 0)"
proof (cases "isTransactional s \<and> \<not> isInTransaction s")
  case False
  then show ?thesis using assms(1) by (simp add: start_not_pending)
next
  case True
  let ?s0 = "s\<lparr>isInTransaction := True\<rparr>"
  let ?r = "and_then (stmt env ''BEGIN'') (\<lambda>h. stmt_run env h None) ?s0"
  have c0: "cache_ok ?s0" using assms(1) by (simp add: cache_ok_def)
  have d0: "dbConnection ?s0 \<noteq> None" using assms(2) by simp
  have pr: "\<And>tr. eng_prepare env tr ''BEGIN'' = None"
    using assms(3) by (simp add: accepts_queries_def)
  note v = verb_run [OF c0 not_inherited_verbs(1), of env]
  have ok: "\<not> isl (fst ?r)"
    by (rule verb_run_accepted [OF c0 not_inherited_verbs(1) d0 pr assms(4)])
  have st: "startTransactionIfNecessary env s = (case ?r of (Inl e, s1) \<Rightarrow> (Inl e, s1)
      | (Inr info, s1) \<Rightarrow> (Inr (), s1))"
    using True by (simp add: startTransactionIfNecessary_def beginTransaction_def)
  have f: "fst (startTransactionIfNecessary env s) = Inr ()"
    using ok unfolding st by (auto split: prod.splits sum.splits)
  have sn: "snd (startTransactionIfNecessary env s) = snd ?r"
    unfolding st by (auto split: prod.splits sum.splits)
  have q: "quiet (verb_event ''BEGIN'') ?s0 (snd ?r)" using v by blast
  have ne: "new_events s (snd ?r) = new_events ?s0 (snd ?r)" by (simp add: new_events_def)
  have ex: "extends s (snd ?r)" using q by (simp add: quiet_def extends_def)
  have le: "length (filter is_begin (new_events s (snd ?r))) \<le> 1"
    using v ne by (simp add: is_begin_def)
  have "filter is_begin (new_events s (snd ?r)) \<noteq> []"
    using v pr d0 ne by (simp add: is_begin_def list_ex_filter)
  then have one: "length (filter is_begin (new_events s (snd ?r))) = 1"
    using le by (cases "filter is_begin (new_events s (snd ?r))") auto
  show ?thesis
    using True f q c0 ex one by (simp add: sn ne quiet_def)
qed

lemma executeMany_unfolded:
  "executeMany env query xs s =
     (case startTransactionIfNecessary env s of
        (Inl e, s0) \<Rightarrow> (Inl e, s0)
      | (Inr u, s0) \<Rightarrow>
          (case getManyRows env query xs s0 of
             (Inl e, s') \<Rightarrow> (Inl e, s')
           | (Inr rows, s') \<Rightarrow> (Inr (), s')))"
  by (simp add: executeMany_def and_then_def split: prod.splits sum.splits)

lemma executeMany_two_batches_accepted:
  assumes "length xs = 1500" and "cache_ok s" and "dbConnection s \<noteq> None"
    and "includes_str query ''???''" and "accepts_queries env" and "accepts_verbs env"
  shows "fst (executeMany env query xs s) = Inr ()
       \<and> map bound_count (filter is_batch (new_events s (snd (executeMany env query xs s))))
           = [900, 600]
       \<and> length (filter is_begin (new_events s (snd (executeMany env query xs s))))
           = (if isTransactional s \<and> \<not> isInTransaction s then 1 else 0)"
proof -
  obtain r0 s0 where st: "startTransactionIfNecessary env s = (r0, s0)"
    by (cases "startTransactionIfNecessary env s")
  note a = start_accepted [OF assms(2,3,5,6)]
  have r0: "r0 = Inr ()" and c0: "cache_ok s0" and d0: "dbConnection s0 \<noteq> None"
    and e0: "extends s s0" and v0: "list_all (verb_event ''BEGIN'') (new_events s s0)"
    and b0: "length (filter is_begin (new_events s s0))
               = (if isTransactional s \<and> \<not> isInTransaction s then 1 else 0)"
    using a st assms(3) by simp_all
  obtain r1 s1 where g: "getManyRows env query xs s0 = (r1, s1)"
    by (cases "getManyRows env query xs s0")
  note m = getManyRows_two_batches_accepted [OF assms(1) c0 d0 assms(4,5)]
  obtain rows where r1: "r1 = Inr rows" using m g by (cases r1) simp_all
  have ex: "map bound_count (filter is_execution (new_events s0 s1)) = [900, 600]"
    using m g by simp
  have q1: "quiet read_event s0 s1"
    using quietly_getManyRows [of env query xs] g unfolding quietly_def by (metis snd_conv)
  have e1: "extends s0 s1" and rd: "list_all read_event (new_events s0 s1)"
    using q1 by (simp_all add: quiet_def)
  have res: "executeMany env query xs s = (Inr (), s1)"
    using st r0 g r1 by (simp add: executeMany_unfolded)
  have ne: "new_events s s1 = new_events s s0 @ new_events s0 s1"
    using e0 e1 by (rule new_events_trans)
  show ?thesis
    using b0 ex verb_events_no_batch [OF v0] read_events_batches [OF rd]
    by (simp add: res ne)
qed

text \<open>
  Claim C3, as amended. For a parameter list of length 1500 (with \<open>PARAM_LIMIT\<close> 900),
  \<open>getManyRows\<close> is two calls of \<open>getRows\<close>, the first with the template rewritten
  for 900 placeholders and the first 900 parameters, the second with the template
  rewritten for 600 placeholders and the remaining 600 parameters, in input order; an
  exception of either batch ends the call, and otherwise the rows of the first batch are
  returned before those of the second. On a connected module whose engine accepts the
  statements (and whose stored statements were compiled from the texts they are stored
  under), for a template that contains the chunk marker, that is exactly two
  executions, binding 900 and 600 parameters. \<open>executeMany\<close> is the lazy BEGIN followed
  by the same call of \<open>getManyRows\<close>, and it returns nothing: under the same conditions,
  in every state, it issues exactly the two batched executions of 900 and 600 parameters,
  preceded by one BEGIN when it is called in a scope in which none was issued yet and by
  none otherwise. For an empty list \<open>getManyRows\<close> returns the empty sequence without
  any engine call, and \<open>executeMany\<close>, when no lazy BEGIN is pending, returns nothing
  without any engine call.
\<close>

theorem executeMany_batches:
  assumes "length xs = 1500"
  shows "getManyRows env query xs s =
           (case getRows env (replace_marker query (questionMarks_of 900))
                   (PObj (curParamsObj_of (take 900 xs))) s of
              (Inl e, s1) \<Rightarrow> (Inl e, s1)
            | (Inr rows1, s1) \<Rightarrow>
                (case getRows env (replace_marker query (questionMarks_of 600))
                        (PObj (curParamsObj_of (drop 900 xs))) s1 of
                   (Inl e, s2) \<Rightarrow> (Inl e, s2)
                 | (Inr rows2, s2) \<Rightarrow> (Inr (rows1 @ rows2), s2)))
       \<and> map snd (curParamsObj_of (take 900 xs)) @ map snd (curParamsObj_of (drop 900 xs)) = xs
       \<and> (cache_ok s \<and> dbConnection s \<noteq> None \<and> includes_str query ''???'' \<and> accepts_queries env
          \<longrightarrow> \<not> isl (fst (getManyRows env query xs s))
            \<and> map bound_count
                 (filter is_execution (new_events s (snd (getManyRows env query xs s))))
                = [900, 600])
       \<and> executeMany env query xs s =
           (case startTransactionIfNecessary env s of
              (Inl e, s0) \<Rightarrow> (Inl e, s0)
            | (Inr u, s0) \<Rightarrow>
                (case getManyRows env query xs s0 of
                   (Inl e, s') \<Rightarrow> (Inl e, s')
                 | (Inr rows, s') \<Rightarrow> (Inr (), s')))
       \<and> (cache_ok s \<and> dbConnection s \<noteq> None \<and> includes_str query ''???'' \<and> accepts_queries env
            \<and> accepts_verbs env
          \<longrightarrow> fst (executeMany env query xs s) = Inr ()
            \<and> map bound_count
                 (filter is_batch (new_events s (snd (executeMany env query xs s))))
                = [900, 600]
            \<and> length (filter is_begin (new_events s (snd (executeMany env query xs s))))
                = (if isTransactional s \<and> \<not> isInTransaction s then 1 else 0))
       \<and> (\<not> (isTransactional s \<and> \<not> isInTransaction s)
          \<longrightarrow> executeMany env query xs s =
                (case getManyRows env query xs s of
                   (Inl e, s') \<Rightarrow> (Inl e, s')
                 | (Inr rows, s') \<Rightarrow> (Inr (), s'))
            \<and> executeMany env query [] s = (Inr (), s))
       \<and> getManyRows env query [] s = (Inr [], s)"
proof -
  have order: "map snd (curParamsObj_of (take 900 xs)) @ map snd (curParamsObj_of (drop 900 xs)) = xs"
    by simp
  have empty: "\<not> (isTransactional s \<and> \<not> isInTransaction s)
      \<longrightarrow> executeMany env query [] s = (Inr (), s)"
    using executeMany_not_pending [of s env query "[]"] by (simp add: getManyRows_Nil)
  note a = getManyRows_two_batches [OF assms, of env query s]
  note b = getManyRows_two_batches_accepted [OF assms, of s query env]
  note c = executeMany_unfolded [of env query xs s]
  note d = executeMany_two_batches_accepted [OF assms, of s query env]
  note e = executeMany_not_pending [of s env query xs]
  note f = getManyRows_Nil [of env query s]
  show ?thesis
    using a order b c d e empty f by blast
qed

lemma accepting_env_accepts: "accepts_queries accepting_env"
  by (simp add: accepts_queries_def accepting_env_def)

text \<open>
  On a connected module and an engine that accepts everything, 1500 parameters are bound
  in two executions, 900 and 600, by \<open>getManyRows\<close> and, after one BEGIN, by
  \<open>executeMany\<close> in a scope in which no BEGIN was issued yet.
\<close>

theorem executeMany_batches_witness:
  "length (replicate 1500 (Num 7)) = 1500
   \<and> map bound_count
        (filter is_execution
           (new_events connected_state
              (snd (getManyRows accepting_env delete_many (replicate 1500 (Num 7)) connected_state))))
      = [900, 600]
   \<and> fst (executeMany accepting_env delete_many (replicate 1500 (Num 7)) pending_state) = Inr ()
   \<and> map bound_count
        (filter is_batch
           (new_events pending_state
              (snd (executeMany accepting_env delete_many (replicate 1500 (Num 7)) pending_state))))
      = [900, 600]
   \<and> length
        (filter is_begin
           (new_events pending_state
              (snd (executeMany accepting_env delete_many (replicate 1500 (Num 7)) pending_state))))
      = 1
   \<and> getManyRows accepting_env delete_many [] connected_state = (Inr [], connected_state)"
proof -
  have l: "length (replicate 1500 (Num 7)) = 1500" by simp
  have h: "cache_ok connected_state \<and> dbConnection connected_state \<noteq> None
      \<and> includes_str delete_many ''???'' \<and> accepts_queries accepting_env"
    by (simp add: cache_ok_def delete_many_def accepting_env_accepts)
  have v: "accepts_verbs accepting_env"
    by (simp add: accepts_verbs_def accepting_env_def)
  have p: "cache_ok pending_state \<and> dbConnection pending_state \<noteq> None
      \<and> isTransactional pending_state \<and> \<not> isInTransaction pending_state"
    by (simp add: cache_ok_def pending_state_def)
  note c = executeMany_batches [OF l, of accepting_env delete_many connected_state]
  note q = executeMany_batches [OF l, of accepting_env delete_many pending_state]
  have 1: "map bound_count
        (filter is_execution
           (new_events connected_state
              (snd (getManyRows accepting_env delete_many (replicate 1500 (Num 7)) connected_state))))
      = [900, 600]"
    and 2: "getManyRows accepting_env delete_many [] connected_state = (Inr [], connected_state)"
    using c h by blast+
  have 3: "fst (executeMany accepting_env delete_many (replicate 1500 (Num 7)) pending_state) = Inr ()"
    and 4: "map bound_count
        (filter is_batch
           (new_events pending_state
              (snd (executeMany accepting_env delete_many (replicate 1500 (Num 7)) pending_state))))
      = [900, 600]"
    and 5: "length
        (filter is_begin
           (new_events pending_state
              (snd (executeMany accepting_env delete_many (replicate 1500 (Num 7)) pending_state))))
      = (if isTransactional pending_state \<and> \<not> isInTransaction pending_state then 1 else 0)"
    using q h v p by blast+
  show ?thesis using l 1 2 3 4 5 p by simp
qed

text \<open>
  Claim C3 as stated fails: \<open>executeMany\<close> returns nothing, not the rows, and in a scope
  in which no BEGIN was issued yet it calls the engine (the lazy BEGIN) even for an empty
  list.
\<close>

theorem executeMany_batches_counterexample:
  "fst (executeMany accepting_env delete_many (replicate 1500 (Num 7)) connected_state) = Inr ()
   \<and> fst (executeMany accepting_env delete_many [] pending_state) = Inr ()
   \<and> trace (snd (executeMany accepting_env delete_many [] pending_state))
       = [EPrepare ''BEGIN'', ERun (Handle 0 ''BEGIN'') None]"
proof -
  have l: "length (replicate 1500 (Num 7)) = 1500" by simp
  have np: "\<not> (isTransactional connected_state \<and> \<not> isInTransaction connected_state)" by simp
  have "\<not> isl (fst (getManyRows accepting_env delete_many (replicate 1500 (Num 7)) connected_state))"
    using getManyRows_two_batches_accepted [OF l, of connected_state delete_many accepting_env]
    by (simp add: cache_ok_def delete_many_def accepting_env_accepts)
  then have 1: "fst (executeMany accepting_env delete_many (replicate 1500 (Num 7)) connected_state) = Inr ()"
    by (auto simp: executeMany_not_pending [OF np] split: prod.splits sum.splits)
  have 2: "fst (executeMany accepting_env delete_many [] pending_state) = Inr ()
      \<and> trace (snd (executeMany accepting_env delete_many [] pending_state))
          = [EPrepare ''BEGIN'', ERun (Handle 0 ''BEGIN'') None]"
    by (simp add: executeMany_def getManyRows_Nil run_defs pending_state_def accepting_env_def)
  show ?thesis using 1 2 by blast
qed

end
